theory Spec2Isabelle
  imports Complex_Main
begin

chapter \<open>The embedding\<close>

section \<open>JavaScript strings\<close>

text \<open>
  A JavaScript string is modelled as a \<^typ>\<open>string\<close>: every \<^typ>\<open>char\<close> stands for one
  UTF-16 code unit below 256 (the Latin-1 range, which contains all of ASCII). The
  code units that \<^verbatim>\<open>\s\<close> and \<^verbatim>\<open>String.prototype.trim\<close> treat as white space in
  that range are TAB, LF, VT, FF, CR, SPACE and NBSP.
\<close>

definition isWhiteSpace :: "char \<Rightarrow> bool" where
  "isWhiteSpace c = (of_char c \<in> set [9, 10, 11, 12, 13, 32, 160 :: nat])"

definition trim :: "string \<Rightarrow> string" where
  "trim s = rev (dropWhile isWhiteSpace (rev (dropWhile isWhiteSpace s)))"

definition startsWith :: "string \<Rightarrow> string \<Rightarrow> bool" where
  "startsWith s p = (take (length p) s = p)"

text \<open>\<^verbatim>\<open>s.split(sep)\<close> for a one-character separator: adjacent separators give empty pieces.\<close>

fun splitOn :: "char \<Rightarrow> string \<Rightarrow> string list" where
  "splitOn sep [] = [[]]"
| "splitOn sep (c # cs) =
     (if c = sep then [] # splitOn sep cs
      else (case splitOn sep cs of [] \<Rightarrow> [[c]] | l # ls \<Rightarrow> (c # l) # ls))"

text \<open>\<^verbatim>\<open>text.split(/\r?\n/)\<close>: a line ends at LF or at CR LF; a lone CR stays in its line.\<close>

fun splitLines :: "string \<Rightarrow> string list" where
  "splitLines [] = [[]]"
| "splitLines (c # cs) =
     (if c = CHR 0x0A then [] # splitLines cs
      else (case cs of
              [] \<Rightarrow> [[c]]
            | d # ds \<Rightarrow>
                if c = CHR 0x0D \<and> d = CHR 0x0A then [] # splitLines ds
                else (case splitLines cs of [] \<Rightarrow> [[c]] | l # ls \<Rightarrow> (c # l) # ls)))"

text \<open>\<^verbatim>\<open>s.split(/\s+/)\<close>: a maximal run of white space is one separator.\<close>

function splitWs :: "string \<Rightarrow> string list" where
  "splitWs [] = [[]]"
| "splitWs (c # cs) =
     (if isWhiteSpace c then [] # splitWs (dropWhile isWhiteSpace cs)
      else (case splitWs cs of [] \<Rightarrow> [[c]] | l # ls \<Rightarrow> (c # l) # ls))"
  by pat_completeness auto
termination
  by (relation "measure length") (auto simp: length_dropWhile_le less_Suc_eq_le)

definition isDigit :: "char \<Rightarrow> bool" where
  "isDigit c = (48 \<le> (of_char c :: nat) \<and> (of_char c :: nat) \<le> 57)"

definition digitVal :: "char \<Rightarrow> nat" where
  "digitVal c = of_char c - 48"

text \<open>
  \<^verbatim>\<open>parseInt(str, 10)\<close>: leading white space is skipped, one sign is read, then the longest
  run of decimal digits; anything after it is ignored. \<^const>\<open>None\<close> is NaN (no digit was
  read). The result is kept as an unbounded integer.
\<close>

definition parseInt10 :: "string \<Rightarrow> int option" where
  "parseInt10 str =
     (let t = dropWhile isWhiteSpace str;
          neg = (take 1 t = ''-'');
          r = (if take 1 t = ''-'' \<or> take 1 t = ''+'' then drop 1 t else t);
          ds = takeWhile isDigit r;
          m = int (foldl (\<lambda>a d. 10 * a + digitVal d) 0 ds)
      in if ds = [] then None else Some (if neg then - m else m))"

section \<open>Mesh parser worker\<close>

text \<open>
  An element of the worker's number arrays: the number \<^verbatim>\<open>parseFloat\<close> reads from a token
  (kept as the token), the literal \<^verbatim>\<open>0\<close>, or \<^verbatim>\<open>undefined\<close>, which is what an array read
  outside \<^verbatim>\<open>0 .. length - 1\<close> (or at NaN) gives and what a \<^verbatim>\<open>Float32Array\<close> stores as NaN.
\<close>

datatype num = ParseFloat string | Zero | Undefined

record corner =
  vi :: "int option"
  ni :: "int option"

record parser =
  v :: "num list"
  vn :: "num list"
  outPositions :: "num list"
  outNormals :: "num list"

text \<open>
  The two index readers, given the array they close over. \<^verbatim>\<open>v.length / 3\<close> is a whole
  number, since the arrays grow by three numbers at a time, so the division is integer
  division here.
\<close>

definition parseVertexIndex :: "num list \<Rightarrow> string \<Rightarrow> int option" where
  "parseVertexIndex vs str =
     (case parseInt10 str of
        None \<Rightarrow> None
      | Some n \<Rightarrow> Some (if n < 0 then int (length vs) div 3 + n else n - 1))"

definition parseNormalIndex :: "num list \<Rightarrow> string \<Rightarrow> int option" where
  "parseNormalIndex vns str =
     (case parseInt10 str of
        None \<Rightarrow> None
      | Some n \<Rightarrow> Some (if n < 0 then int (length vns) div 3 + n else n - 1))"

text \<open>\<^verbatim>\<open>xs[i]\<close> on a JavaScript array, the index being an integer or NaN.\<close>

definition elemAt :: "num list \<Rightarrow> int option \<Rightarrow> num" where
  "elemAt xs i =
     (case i of
        None \<Rightarrow> Undefined
      | Some k \<Rightarrow> if 0 \<le> k \<and> k < int (length xs) then xs ! nat k else Undefined)"

text \<open>The triple \<^verbatim>\<open>xs[i * 3], xs[i * 3 + 1], xs[i * 3 + 2]\<close>.\<close>

definition triple :: "num list \<Rightarrow> int option \<Rightarrow> num list" where
  "triple xs i =
     [elemAt xs (map_option (\<lambda>k. k * 3) i),
      elemAt xs (map_option (\<lambda>k. k * 3 + 1) i),
      elemAt xs (map_option (\<lambda>k. k * 3 + 2) i)]"

text \<open>One entry of \<^verbatim>\<open>verts\<close>, read from a token of a face line.\<close>

definition parseCorner :: "parser \<Rightarrow> string \<Rightarrow> corner" where
  "parseCorner st tok =
     (let segs = splitOn (CHR ''/'') tok in
      \<lparr> vi = parseVertexIndex (v st) (segs ! 0),
        ni = (if 3 \<le> length segs \<and> segs ! 2 \<noteq> [] then parseNormalIndex (vn st) (segs ! 2)
              else Some (- 1)) \<rparr>)"

text \<open>The body of \<^verbatim>\<open>for (const { vi, ni } of [a, b, c])\<close> for one corner.\<close>

definition cornerNormal :: "num list \<Rightarrow> corner \<Rightarrow> num list" where
  "cornerNormal vns c =
     (case ni c of
        Some k \<Rightarrow> if 0 \<le> k then triple vns (ni c) else [Zero, Zero, Zero]
      | None \<Rightarrow> [Zero, Zero, Zero])"

definition emitCorner :: "parser \<Rightarrow> corner \<Rightarrow> parser" where
  "emitCorner st c =
     st \<lparr> outPositions := outPositions st @ triple (v st) (vi c),
          outNormals := outNormals st @ cornerNormal (vn st) c \<rparr>"

text \<open>\<^verbatim>\<open>for (let t = 1; t < verts.length - 1; t++)\<close>, entered at \<open>t\<close>.\<close>

function triangulate :: "corner list \<Rightarrow> nat \<Rightarrow> parser \<Rightarrow> parser" where
  "triangulate verts t st =
     (if int t < int (length verts) - 1
      then triangulate verts (t + 1) (foldl emitCorner st [verts ! 0, verts ! t, verts ! (t + 1)])
      else st)"
  by pat_completeness auto
termination
  by (relation "measure (\<lambda>(verts, t, st). length verts - t)") auto

declare triangulate.simps [simp del]

text \<open>
  The \<^verbatim>\<open>parts\<close> of a line that the loop does not skip; \<open>[]\<close> for a line it skips (blank or
  a comment), since \<^const>\<open>splitWs\<close> never returns the empty list.
\<close>

definition lineParts :: "string \<Rightarrow> string list" where
  "lineParts line =
     (let trim = trim line in
      if trim = [] \<or> startsWith trim ''#'' then [] else splitWs trim)"

text \<open>One iteration of the loop over \<^verbatim>\<open>lines\<close>.\<close>

definition parseLine :: "parser \<Rightarrow> string \<Rightarrow> parser" where
  "parseLine st line =
     (let parts = lineParts line in
      if parts = [] then st
      else if parts ! 0 = ''v'' \<and> 4 \<le> length parts then
        st \<lparr> v := v st @ [ParseFloat (parts ! 1), ParseFloat (parts ! 2), ParseFloat (parts ! 3)] \<rparr>
      else if parts ! 0 = ''vn'' \<and> 4 \<le> length parts then
        st \<lparr> vn := vn st @ [ParseFloat (parts ! 1), ParseFloat (parts ! 2), ParseFloat (parts ! 3)] \<rparr>
      else if parts ! 0 = ''f'' \<and> 4 \<le> length parts then
        triangulate (map (parseCorner st) (tl parts)) 1 st
      else st)"

datatype js_value =
  JString string | JNumber int | JBoolean bool | JNull | JUndefined | JObject

definition typeof :: "js_value \<Rightarrow> string" where
  "typeof d =
     (case d of
        JString s \<Rightarrow> ''string''
      | JNumber n \<Rightarrow> ''number''
      | JBoolean b \<Rightarrow> ''boolean''
      | JNull \<Rightarrow> ''object''
      | JUndefined \<Rightarrow> ''undefined''
      | JObject \<Rightarrow> ''object'')"

datatype reply = ErrorReply string | Buffers "num list" "num list"

definition emptyParser :: parser where
  "emptyParser = \<lparr> v = [], vn = [], outPositions = [], outNormals = [] \<rparr>"

text \<open>
  \<^verbatim>\<open>self.onmessage\<close>: the list of the messages it posts back, in order. The two
  \<^verbatim>\<open>Float32Array\<close>s have the lengths of the arrays they are built from.
\<close>

definition onmessage :: "js_value \<Rightarrow> reply list" where
  "onmessage d =
     (if typeof d \<noteq> ''string'' then [ErrorReply ''Expected string'']
      else (case d of
              JString text \<Rightarrow>
                (let st = foldl parseLine emptyParser (splitLines text)
                 in [Buffers (outPositions st) (outNormals st)])
            | _ \<Rightarrow> []))"

text \<open>Vocabulary for statements about a mesh text: the triangles a line adds, face lines.\<close>

definition lineTriangles :: "string \<Rightarrow> nat" where
  "lineTriangles line =
     (let parts = lineParts line in
      if parts \<noteq> [] \<and> parts ! 0 = ''f'' \<and> 4 \<le> length parts then length parts - 3 else 0)"

definition isFaceLine :: "string \<Rightarrow> bool" where
  "isFaceLine line = (lineParts line \<noteq> [] \<and> lineParts line ! 0 = ''f'')"

definition faceCount :: "string \<Rightarrow> nat" where
  "faceCount text = length (filter isFaceLine (splitLines text))"

definition hasNormalRef :: "string \<Rightarrow> bool" where
  "hasNormalRef tok =
     (3 \<le> length (splitOn (CHR ''/'') tok) \<and> splitOn (CHR ''/'') tok ! 2 \<noteq> [])"

text \<open>
  The lines that push a vertex, and the lines that push a normal, with the three numbers
  each pushes.
\<close>

definition isVertexLine :: "string \<Rightarrow> bool" where
  "isVertexLine line =
     (lineParts line \<noteq> [] \<and> lineParts line ! 0 = ''v'' \<and> 4 \<le> length (lineParts line))"

definition isNormalLine :: "string \<Rightarrow> bool" where
  "isNormalLine line =
     (lineParts line \<noteq> [] \<and> lineParts line ! 0 = ''vn'' \<and> 4 \<le> length (lineParts line))"

definition lineNumbers :: "string \<Rightarrow> num list" where
  "lineNumbers line =
     [ParseFloat (lineParts line ! 1), ParseFloat (lineParts line ! 2),
      ParseFloat (lineParts line ! 3)]"

text \<open>What a corner of a face emits, given the token that refers to it.\<close>

definition cornerPosition :: "parser \<Rightarrow> string \<Rightarrow> num list" where
  "cornerPosition st tok = triple (v st) (vi (parseCorner st tok))"

definition cornerNormalOf :: "parser \<Rightarrow> string \<Rightarrow> num list" where
  "cornerNormalOf st tok = cornerNormal (vn st) (parseCorner st tok)"

text \<open>
  Specification of the fan: the triangles of a face with the references \<open>refs\<close>, each the
  first reference and two consecutive later ones.
\<close>

definition fanTriangulation :: "string list \<Rightarrow> string list list" where
  "fanTriangulation refs = map (\<lambda>t. [refs ! 0, refs ! t, refs ! (t + 1)]) [1 ..< length refs - 1]"

section \<open>Decimation\<close>

text \<open>
  A three.js buffer attribute as \<^verbatim>\<open>decimateForPoints\<close> uses it: its \<^verbatim>\<open>count\<close> and the
  getters of item \<open>i\<close>. The arrays the function builds are lists.
\<close>

record 'a attribute =
  count :: nat
  getX :: "nat \<Rightarrow> 'a"
  getY :: "nat \<Rightarrow> 'a"
  getZ :: "nat \<Rightarrow> 'a"

record 'a geometry =
  position :: "'a attribute option"
  normal :: "'a attribute option"

text \<open>
  The geometry returned: the arrays given to \<^verbatim>\<open>Float32BufferAttribute(_, 3)\<close>; the normal
  attribute is absent when \<^verbatim>\<open>outNorm\<close> is null.
\<close>

record 'a decimated =
  positionArray :: "'a list"
  normalArray :: "'a list option"

datatype 'a returned = Null | Geometry "'a decimated"

text \<open>
  \<^verbatim>\<open>for (let i = 0; i < count; i += step)\<close>, entered at \<open>i\<close>. With \<open>step = 0\<close> the loop
  never ends, which is the value \<^const>\<open>None\<close>.
\<close>

partial_function (option) decimateLoop ::
  "'a attribute \<Rightarrow> 'a attribute option \<Rightarrow> nat \<Rightarrow> nat \<Rightarrow> 'a list \<Rightarrow> 'a list option \<Rightarrow>
     ('a list \<times> 'a list option) option"
where
  "decimateLoop pos nrm step i outPos outNorm =
     (if i < count pos then
        decimateLoop pos nrm step (i + step)
          (outPos @ [getX pos i, getY pos i, getZ pos i])
          (case nrm of
             None \<Rightarrow> outNorm
           | Some n \<Rightarrow> map_option (\<lambda>out. out @ [getX n i, getY n i, getZ n i]) outNorm)
      else Some (outPos, outNorm))"

declare decimateLoop.simps [code]

definition decimateForPoints :: "'a geometry \<Rightarrow> nat \<Rightarrow> 'a returned option" where
  "decimateForPoints g step =
     (case position g of
        None \<Rightarrow> Some Null
      | Some pos \<Rightarrow>
          (case decimateLoop pos (normal g) step 0 []
                  (case normal g of None \<Rightarrow> None | Some n \<Rightarrow> Some []) of
             None \<Rightarrow> None
           | Some (outPos, outNorm) \<Rightarrow>
               Some (Geometry \<lparr> positionArray = outPos, normalArray = outNorm \<rparr>)))"

text \<open>
  Specification of decimation: the items \<open>i\<close>, \<open>i + step\<close>, \<open>i + 2 * step\<close>, ... of an
  attribute, \<open>k\<close> of them, as a flat array.
\<close>

definition everyNth :: "'a attribute \<Rightarrow> nat \<Rightarrow> nat \<Rightarrow> nat \<Rightarrow> 'a list" where
  "everyNth a step i k =
     concat (map (\<lambda>j. [getX a (i + j * step), getY a (i + j * step), getZ a (i + j * step)])
                 [0 ..< k])"

section \<open>Scan-reveal renderer\<close>

text \<open>
  JavaScript numbers are modelled as real numbers. \<^verbatim>\<open>a % b\<close> has the sign of \<open>a\<close>: the
  quotient is truncated towards zero. The only divisor in the program is the constant
  \<^verbatim>\<open>cycleDuration\<close>.
\<close>

definition jsRem :: "real \<Rightarrow> real \<Rightarrow> real" where
  "jsRem a b = a - b * of_int (if 0 \<le> a / b then \<lfloor>a / b\<rfloor> else \<lceil>a / b\<rceil>)"

datatype phase = Scanning | Complete

record scan_state =
  phase :: phase
  scanY :: real
  scanSpeed :: real
  maxY :: real

text \<open>An entry of \<^verbatim>\<open>pathways\<close>; \<open>opacity\<close> is \<^verbatim>\<open>line.material.opacity\<close>.\<close>

record pathway =
  delay :: real
  duration :: real
  opacity :: real

text \<open>
  The variables of \<^verbatim>\<open>initBrainScene\<close> that its callbacks write. \<open>uScanY\<close> is
  \<^verbatim>\<open>brainPointsMaterial.uniforms.uScanY.value\<close>, \<^const>\<open>None\<close> while the material is null;
  \<open>xRayOpacity\<close> is \<^verbatim>\<open>scene.userData.xRayMat.opacity\<close>, \<^const>\<open>None\<close> while there is no
  such material.
\<close>

record scene =
  scanState :: scan_state
  lastTime :: real
  cycleTime :: real
  pathways :: "pathway list"
  pathwaysGroupVisible :: bool
  autoRotate :: bool
  scanLineY :: real
  scanLineVisible :: bool
  uScanY :: "real option"
  xRayOpacity :: "real option"
  rotationY :: real
  nodeOpacity :: real
  nodeSize :: real

text \<open>
  Two revisions of the scene are in the repository: the one that parses the mesh in a
  worker and shows a placeholder meanwhile (\<^verbatim>\<open>src/unnamed/part_004\<close>), and the one that
  loads it with three.js's \<^verbatim>\<open>OBJLoader\<close> (\<^verbatim>\<open>src/src/js/brainScene.js\<close>).
\<close>

datatype revision = WorkerParser | ObjLoader

definition SCAN_SPEED :: real where
  "SCAN_SPEED = 80"

definition LOADING_ROTATION_SPEED :: real where
  "LOADING_ROTATION_SPEED = 0.07"

definition cycleDuration :: real where
  "cycleDuration = 8"

text \<open>
  The state when \<^verbatim>\<open>initBrainScene\<close> returns; \<open>t0\<close> is what \<^verbatim>\<open>performance.now()\<close> gave for
  \<^verbatim>\<open>lastTime\<close>. The worker revision creates the points material, and turns the group, at
  once; the loader revision does both when the mesh has loaded.
\<close>

definition initBrainScene :: "revision \<Rightarrow> real \<Rightarrow> scene" where
  "initBrainScene rv t0 =
     \<lparr> scanState = \<lparr> phase = Scanning, scanY = - 120, scanSpeed = SCAN_SPEED, maxY = 120 \<rparr>,
       lastTime = t0,
       cycleTime = 0,
       pathways = map (\<lambda>idx. \<lparr> delay = real idx * 0.4, duration = 1.5, opacity = 0 \<rparr>) [0 ..< 9],
       pathwaysGroupVisible = False,
       autoRotate = False,
       scanLineY = 0,
       scanLineVisible = False,
       uScanY = (case rv of WorkerParser \<Rightarrow> Some (- 120) | ObjLoader \<Rightarrow> None),
       xRayOpacity = None,
       rotationY = (case rv of WorkerParser \<Rightarrow> pi / 2 | ObjLoader \<Rightarrow> 0),
       nodeOpacity = 0,
       nodeSize = 8 \<rparr>"

text \<open>The body of \<^verbatim>\<open>pathways.forEach\<close> in \<^verbatim>\<open>render\<close>.\<close>

definition animatePathway :: "real \<Rightarrow> pathway \<Rightarrow> pathway" where
  "animatePathway cyc p =
     (let pathTime = jsRem (cyc - delay p + cycleDuration) cycleDuration in
      if pathTime < duration p then
        p \<lparr> opacity := sin (pathTime / duration p * pi) * 0.7 \<rparr>
      else if pathTime < duration p + 0.5 then
        p \<lparr> opacity := 0.7 * (1 - (pathTime - duration p) / 0.5) \<rparr>
      else p \<lparr> opacity := 0 \<rparr>)"

text \<open>The block \<^verbatim>\<open>if (scanState.phase === "scanning")\<close> of \<^verbatim>\<open>render\<close>.\<close>

definition scanStep :: "real \<Rightarrow> scene \<Rightarrow> scene" where
  "scanStep dt st =
     (if phase (scanState st) = Scanning then
        (let y = scanY (scanState st) + scanSpeed (scanState st) * dt;
             st1 = st \<lparr> scanState := (scanState st) \<lparr> scanY := y \<rparr>,
                       scanLineY := y,
                       scanLineVisible := True,
                       uScanY := map_option (\<lambda>u. y) (uScanY st) \<rparr>
         in if y > maxY (scanState st1) then
              st1 \<lparr> scanState := (scanState st1) \<lparr> phase := Complete \<rparr>,
                    scanLineVisible := False,
                    autoRotate := True,
                    pathwaysGroupVisible := True,
                    xRayOpacity := map_option (\<lambda>x. 0.1) (xRayOpacity st1) \<rparr>
            else st1)
      else st)"

text \<open>The block \<^verbatim>\<open>if (scanState.phase === "complete")\<close> of \<^verbatim>\<open>render\<close>.\<close>

definition animateStep :: "real \<Rightarrow> real \<Rightarrow> scene \<Rightarrow> scene" where
  "animateStep dt t st =
     (if phase (scanState st) = Complete then
        (let cyc = jsRem (cycleTime st + dt) cycleDuration in
         st \<lparr> cycleTime := cyc,
              pathways := map (animatePathway cyc) (pathways st),
              nodeOpacity := 0.4 + 0.3 * sin (t * 2),
              nodeSize := 6 + 4 * sin (t * 1.5) \<rparr>)
      else st)"

text \<open>
  \<^verbatim>\<open>render(now)\<close>, \<open>now\<close> being the frame's time stamp (\<^verbatim>\<open>performance.now()\<close> when the
  argument is falsy). Only the worker revision turns the group while loading.
\<close>

definition render :: "revision \<Rightarrow> real \<Rightarrow> scene \<Rightarrow> scene" where
  "render rv now st =
     (let dt = (now - lastTime st) / 1000;
          st1 = st \<lparr> lastTime := now \<rparr>;
          t = now / 1000;
          st2 = (case rv of
                   WorkerParser \<Rightarrow> st1 \<lparr> rotationY := rotationY st1 + LOADING_ROTATION_SPEED * dt \<rparr>
                 | ObjLoader \<Rightarrow> st1)
      in animateStep dt t (scanStep dt st2))"

text \<open>
  The mesh arrived (the worker's reply, or the loader's \<^verbatim>\<open>onLoad\<close> with at least one
  mesh): \<open>lo\<close> and \<open>hi\<close> are \<^verbatim>\<open>bbox.min.y\<close> and \<^verbatim>\<open>bbox.max.y\<close>.
\<close>

definition onMeshLoaded :: "revision \<Rightarrow> real \<Rightarrow> real \<Rightarrow> scene \<Rightarrow> scene" where
  "onMeshLoaded rv lo hi st =
     (let st1 = st \<lparr> scanState := (scanState st) \<lparr> scanY := lo - 10, maxY := hi + 10 \<rparr> \<rparr>;
          st2 = st1 \<lparr> uScanY := Some (scanY (scanState st1)) \<rparr>
      in case rv of
           WorkerParser \<Rightarrow> st2
         | ObjLoader \<Rightarrow> st2 \<lparr> xRayOpacity := Some 0, rotationY := pi / 2 \<rparr>)"

text \<open>
  The mesh did not arrive. The worker revision keeps the placeholder and changes nothing
  (a failed fetch, a worker error, an error reply); the loader's \<^verbatim>\<open>onError\<close> shows a
  fallback mesh and ends the scan.
\<close>

definition onLoadFailed :: "revision \<Rightarrow> scene \<Rightarrow> scene" where
  "onLoadFailed rv st =
     (case rv of
        WorkerParser \<Rightarrow> st
      | ObjLoader \<Rightarrow>
          st \<lparr> scanState := (scanState st) \<lparr> phase := Complete \<rparr>, rotationY := pi / 2 \<rparr>)"

datatype event = Frame real | MeshLoaded real real | LoadFailed

definition handle :: "revision \<Rightarrow> scene \<Rightarrow> event \<Rightarrow> scene" where
  "handle rv st ev =
     (case ev of
        Frame now \<Rightarrow> render rv now st
      | MeshLoaded lo hi \<Rightarrow> onMeshLoaded rv lo hi st
      | LoadFailed \<Rightarrow> onLoadFailed rv st)"

definition run :: "revision \<Rightarrow> scene \<Rightarrow> event list \<Rightarrow> scene" where
  "run rv st evs = foldl (handle rv) st evs"

text \<open>The frames' time stamps never decrease, starting from \<open>t\<close> (a monotonic clock).\<close>

fun monotonic :: "real \<Rightarrow> event list \<Rightarrow> bool" where
  "monotonic t [] = True"
| "monotonic t (Frame now # evs) = (t \<le> now \<and> monotonic now evs)"
| "monotonic t (ev # evs) = monotonic t evs"

text \<open>
  The time stamps of a run as the browser's frame clock gives them to \<^verbatim>\<open>render\<close>: they
  never decrease from one frame to the next, and the first frame is stamped no more than
  4.8 seconds (the cycle of 8 seconds less the largest delay, 3.2 seconds) before the time
  \<open>t0\<close> that \<^verbatim>\<open>performance.now()\<close> gave for \<^verbatim>\<open>lastTime\<close>. The first stamp may be earlier than
  \<open>t0\<close>.
\<close>

fun clock :: "real \<Rightarrow> event list \<Rightarrow> bool" where
  "clock t0 [] = True"
| "clock t0 (Frame now # evs) = (t0 - 4800 \<le> now \<and> monotonic now evs)"
| "clock t0 (ev # evs) = clock t0 evs"

text \<open>The number of changes from scanning to complete in a run.\<close>

fun transitions :: "revision \<Rightarrow> scene \<Rightarrow> event list \<Rightarrow> nat" where
  "transitions rv st [] = 0"
| "transitions rv st (ev # evs) =
     (if phase (scanState st) = Scanning \<and> phase (scanState (handle rv st ev)) = Complete
      then 1 else 0) + transitions rv (handle rv st ev) evs"

text \<open>A pathway line's opacity lies in the closed interval from 0 to 0.7.\<close>

definition opacityInRange :: "pathway \<Rightarrow> bool" where
  "opacityInRange p = (0 \<le> opacity p \<and> opacity p \<le> 0.7)"

text \<open>What the frames keep true of the cycle clock and of every pathway.\<close>

definition cycleOk :: "real \<Rightarrow> bool" where
  "cycleOk cyc = (- 4.8 \<le> cyc)"

definition pathwayOk :: "pathway \<Rightarrow> bool" where
  "pathwayOk p = (delay p \<le> 3.2 \<and> 0 < duration p \<and> opacityInRange p)"

subsection \<open>The revision without a scan\<close>

text \<open>
  One more revision of the scene (\<^verbatim>\<open>src/unnamed/part_005\<close>) has no scan state: every
  frame advances the cycle clock and animates the pathways. Its state is the variables
  that this \<^verbatim>\<open>render\<close> writes.
\<close>

record thinking =
  lastTime0 :: real
  cycleTime0 :: real
  pathways0 :: "pathway list"
  nodeOpacity0 :: real
  nodeSize0 :: real

definition initThinking :: "real \<Rightarrow> thinking" where
  "initThinking t0 =
     \<lparr> lastTime0 = t0,
       cycleTime0 = 0,
       pathways0 = map (\<lambda>idx. \<lparr> delay = real idx * 0.4, duration = 1.5, opacity = 0 \<rparr>) [0 ..< 9],
       nodeOpacity0 = 0.6,
       nodeSize0 = 8 \<rparr>"

definition renderThinking :: "thinking \<Rightarrow> real \<Rightarrow> thinking" where
  "renderThinking st now =
     (let dt = (now - lastTime0 st) / 1000;
          cyc = jsRem (cycleTime0 st + dt) cycleDuration;
          t = now / 1000
      in \<lparr> lastTime0 = now,
           cycleTime0 = cyc,
           pathways0 = map (animatePathway cyc) (pathways0 st),
           nodeOpacity0 = 0.4 + 0.3 * sin (t * 2),
           nodeSize0 = 6 + 4 * sin (t * 1.5) \<rparr>)"

section \<open>Scroll effects\<close>

text \<open>
  What \<^verbatim>\<open>handleScroll\<close> (\<^verbatim>\<open>update\<close> in the revision that coalesces scroll events) reads:
  the top and the height of the hero's bounding rectangle, and \<^verbatim>\<open>window.innerHeight\<close>, a
  number of pixels.
\<close>

record viewport =
  rectTop :: real
  rectHeight :: real
  innerHeight :: nat

definition vh :: "viewport \<Rightarrow> real" where
  "vh w = (if innerHeight w = 0 then 1 else real (innerHeight w))"

definition center :: "viewport \<Rightarrow> real" where
  "center w = rectTop w + rectHeight w / 2"

definition distance :: "viewport \<Rightarrow> real" where
  "distance w = \<bar>center w - vh w / 2\<bar>"

definition normalized :: "viewport \<Rightarrow> real" where
  "normalized w = min (distance w / (vh w / 2)) 1"

definition intensity :: "viewport \<Rightarrow> real" where
  "intensity w = 1 - normalized w"

text \<open>The style written to the visual: the scale, the opacity, the pulse class.\<close>

record visual =
  transformScale :: real
  styleOpacity :: real
  pulseClass :: bool

definition handleScroll :: "viewport \<Rightarrow> visual" where
  "handleScroll w =
     \<lparr> transformScale = 1 + intensity w * 0.03,
       styleOpacity = 0.8 + intensity w * 0.2,
       pulseClass = (intensity w > 0.4) \<rparr>"

section \<open>Waitlist form\<close>

subsection \<open>Regular expressions\<close>

text \<open>
  The regular expressions the validator needs: character classes, sequence and \<^verbatim>\<open>+\<close>, with
  the constructors their derivatives add. \<^verbatim>\<open>/^r$/.test(s)\<close> holds when \<open>r\<close> matches all of
  \<open>s\<close>.
\<close>

datatype regex =
  Never
  | Empty
  | Class "char \<Rightarrow> bool"
  | Seq regex regex
  | Alt regex regex
  | Plus regex

fun nullable :: "regex \<Rightarrow> bool" where
  "nullable Never = False"
| "nullable Empty = True"
| "nullable (Class p) = False"
| "nullable (Seq r s) = (nullable r \<and> nullable s)"
| "nullable (Alt r s) = (nullable r \<or> nullable s)"
| "nullable (Plus r) = nullable r"

fun deriv :: "char \<Rightarrow> regex \<Rightarrow> regex" where
  "deriv c Never = Never"
| "deriv c Empty = Never"
| "deriv c (Class p) = (if p c then Empty else Never)"
| "deriv c (Seq r s) =
     (if nullable r then Alt (Seq (deriv c r) s) (deriv c s) else Seq (deriv c r) s)"
| "deriv c (Alt r s) = Alt (deriv c r) (deriv c s)"
| "deriv c (Plus r) = Seq (deriv c r) (Alt Empty (Plus r))"

definition test :: "regex \<Rightarrow> string \<Rightarrow> bool" where
  "test r s = nullable (foldl (\<lambda>q c. deriv c q) r s)"

text \<open>
  Specification of matching: the language of a regular expression, against which the
  derivative matcher is compared.
\<close>

inductive_set plusLang :: "string set \<Rightarrow> string set" for A :: "string set" where
  one: "u \<in> A \<Longrightarrow> u \<in> plusLang A"
| more: "u \<in> A \<Longrightarrow> w \<in> plusLang A \<Longrightarrow> u @ w \<in> plusLang A"

fun lang :: "regex \<Rightarrow> string set" where
  "lang Never = {}"
| "lang Empty = {[]}"
| "lang (Class p) = {[c] | c. p c}"
| "lang (Seq r s) = {u @ w | u w. u \<in> lang r \<and> w \<in> lang s}"
| "lang (Alt r s) = lang r \<union> lang s"
| "lang (Plus r) = plusLang (lang r)"

text \<open>\<^verbatim>\<open>[^\s@]\<close>\<close>

definition notSpaceAt :: "char \<Rightarrow> bool" where
  "notSpaceAt c = (\<not> isWhiteSpace c \<and> c \<noteq> CHR ''@'')"

text \<open>\<^verbatim>\<open>/^[^\s@]+@[^\s@]+\.[^\s@]+$/\<close>\<close>

definition emailPattern :: regex where
  "emailPattern =
     Seq (Plus (Class notSpaceAt))
       (Seq (Class (\<lambda>c. c = CHR ''@''))
         (Seq (Plus (Class notSpaceAt))
           (Seq (Class (\<lambda>c. c = CHR ''.'')) (Plus (Class notSpaceAt)))))"

text \<open>\<^verbatim>\<open>toLowerCase\<close> on code units below 256: A to Z, and the capital letters of Latin-1.\<close>

definition toLowerCase :: "string \<Rightarrow> string" where
  "toLowerCase s =
     map (\<lambda>c. let n = (of_char c :: nat) in
               if (65 \<le> n \<and> n \<le> 90) \<or> (192 \<le> n \<and> n \<le> 222 \<and> n \<noteq> 215)
               then char_of (n + 32) else c) s"

text \<open>\<^verbatim>\<open>isValidEmail\<close> of \<^verbatim>\<open>src/src/js/waitlistForm.js\<close>.\<close>

definition isValidEmail :: "string \<Rightarrow> bool" where
  "isValidEmail val = test emailPattern (trim (toLowerCase val))"

text \<open>\<^verbatim>\<open>isValidEmail\<close> of the client-only revision (\<^verbatim>\<open>src/unnamed/part_004\<close>): no trim.\<close>

definition isValidEmailLocal :: "string \<Rightarrow> bool" where
  "isValidEmailLocal val = test emailPattern (toLowerCase val)"

subsection \<open>The submit listener\<close>






section \<open>Example inputs\<close>

text \<open>A quad after four vertices and one normal: two triangles, the last corner without a normal.\<close>

definition quadState :: parser where
  "quadState =
     \<lparr> v = map ParseFloat [''0'', ''0'', ''0'', ''1'', ''0'', ''0'', ''1'', ''1'', ''0'', ''0'', ''1'', ''0''],
       vn = map ParseFloat [''0'', ''0'', ''1''],
       outPositions = [],
       outNormals = [] \<rparr>"



chapter \<open>Properties\<close>

section \<open>The mesh parser\<close>

lemma length_triple [simp]: "length (triple xs i) = 3"
  by (simp add: triple_def)

lemma length_cornerNormal [simp]: "length (cornerNormal vns c) = 3"
  by (simp add: cornerNormal_def split: option.splits)

lemma emitCorner_v [simp]: "v (emitCorner st c) = v st"
  by (simp add: emitCorner_def)

lemma emitCorner_vn [simp]: "vn (emitCorner st c) = vn st"
  by (simp add: emitCorner_def)

lemma triangulate_unfold:
  "int t < int (length verts) - 1 \<Longrightarrow>
   triangulate verts t st =
     triangulate verts (t + 1) (foldl emitCorner st [verts ! 0, verts ! t, verts ! (t + 1)])"
  by (subst triangulate.simps) simp

lemma triangulate_stop: "\<not> int t < int (length verts) - 1 \<Longrightarrow> triangulate verts t st = st"
  by (subst triangulate.simps) simp

lemma triangulate_v [simp]: "v (triangulate verts t st) = v st"
proof (induction verts t st rule: triangulate.induct)
  case (1 verts t st)
  show ?case
  proof (cases "int t < int (length verts) - 1")
    case True
    then have "v (triangulate verts t st) =
        v (foldl emitCorner st [verts ! 0, verts ! t, verts ! (t + 1)])"
      using 1 by (simp only: triangulate_unfold)
    then show ?thesis by simp
  next
    case False
    then show ?thesis by (simp add: triangulate_stop)
  qed
qed

lemma triangulate_vn [simp]: "vn (triangulate verts t st) = vn st"
proof (induction verts t st rule: triangulate.induct)
  case (1 verts t st)
  show ?case
  proof (cases "int t < int (length verts) - 1")
    case True
    then have "vn (triangulate verts t st) =
        vn (foldl emitCorner st [verts ! 0, verts ! t, verts ! (t + 1)])"
      using 1 by (simp only: triangulate_unfold)
    then show ?thesis by simp
  next
    case False
    then show ?thesis by (simp add: triangulate_stop)
  qed
qed

text \<open>The loop's output, triangle by triangle.\<close>

lemma triangulate_outPositions:
  "outPositions (triangulate verts t st) =
     outPositions st @
     concat (map (\<lambda>i. triple (v st) (vi (verts ! 0)) @ triple (v st) (vi (verts ! i)) @
                        triple (v st) (vi (verts ! (i + 1))))
                 [t ..< length verts - 1])"
proof (induction verts t st rule: triangulate.induct)
  case (1 verts t st)
  show ?case
  proof (cases "int t < int (length verts) - 1")
    case True
    then have lt: "t < length verts - 1" by linarith
    have "outPositions (triangulate verts t st) =
        outPositions (foldl emitCorner st [verts ! 0, verts ! t, verts ! (t + 1)]) @
        concat (map (\<lambda>i. triple (v st) (vi (verts ! 0)) @ triple (v st) (vi (verts ! i)) @
                        triple (v st) (vi (verts ! (i + 1))))
                 [t + 1 ..< length verts - 1])"
      using 1 [OF True] True by (simp add: triangulate_unfold)
    then show ?thesis
      using lt by (simp add: upt_conv_Cons [of t] emitCorner_def)
  next
    case False
    then have "\<not> t < length verts - 1" by linarith
    with False show ?thesis by (simp add: triangulate_stop)
  qed
qed

lemma triangulate_outNormals:
  "outNormals (triangulate verts t st) =
     outNormals st @
     concat (map (\<lambda>i. cornerNormal (vn st) (verts ! 0) @ cornerNormal (vn st) (verts ! i) @
                        cornerNormal (vn st) (verts ! (i + 1)))
                 [t ..< length verts - 1])"
proof (induction verts t st rule: triangulate.induct)
  case (1 verts t st)
  show ?case
  proof (cases "int t < int (length verts) - 1")
    case True
    then have lt: "t < length verts - 1" by linarith
    have "outNormals (triangulate verts t st) =
        outNormals (foldl emitCorner st [verts ! 0, verts ! t, verts ! (t + 1)]) @
        concat (map (\<lambda>i. cornerNormal (vn st) (verts ! 0) @ cornerNormal (vn st) (verts ! i) @
                        cornerNormal (vn st) (verts ! (i + 1)))
                 [t + 1 ..< length verts - 1])"
      using 1 [OF True] True by (simp add: triangulate_unfold)
    then show ?thesis
      using lt by (simp add: upt_conv_Cons [of t] emitCorner_def)
  next
    case False
    then have "\<not> t < length verts - 1" by linarith
    with False show ?thesis by (simp add: triangulate_stop)
  qed
qed

lemma length_concat_const:
  "(\<And>x. x \<in> set xs \<Longrightarrow> length (f x) = k) \<Longrightarrow> length (concat (map f xs)) = k * length xs"
  by (induction xs) auto

lemma triangulate_length_outPositions:
  "length (outPositions (triangulate verts t st)) =
     length (outPositions st) + 9 * (length verts - 1 - t)"
  by (simp add: triangulate_outPositions length_concat_const [where k = 9])

lemma triangulate_length_outNormals:
  "length (outNormals (triangulate verts t st)) =
     length (outNormals st) + 9 * (length verts - 1 - t)"
  by (simp add: triangulate_outNormals length_concat_const [where k = 9])

lemma parseLine_length_outPositions:
  "length (outPositions (parseLine st line)) = length (outPositions st) + 9 * lineTriangles line"
  by (auto simp: parseLine_def lineTriangles_def Let_def triangulate_length_outPositions)

lemma parseLine_length_outNormals:
  "length (outNormals (parseLine st line)) = length (outNormals st) + 9 * lineTriangles line"
  by (auto simp: parseLine_def lineTriangles_def Let_def triangulate_length_outNormals)

lemma foldl_parseLine_length_outPositions:
  "length (outPositions (foldl parseLine st lines)) =
     length (outPositions st) + 9 * sum_list (map lineTriangles lines)"
  by (induction lines arbitrary: st) (simp_all add: parseLine_length_outPositions)

lemma foldl_parseLine_length_outNormals:
  "length (outNormals (foldl parseLine st lines)) =
     length (outNormals st) + 9 * sum_list (map lineTriangles lines)"
  by (induction lines arbitrary: st) (simp_all add: parseLine_length_outNormals)

text \<open>Vertices and normals are pushed three numbers at a time, so the counts are whole.\<close>

lemma dvd3_append: "3 dvd length xs \<Longrightarrow> 3 dvd length (xs @ [a, b, c])"
proof -
  assume "3 dvd length xs"
  moreover have "length (xs @ [a, b, c]) = length xs + 3" by simp
  ultimately show ?thesis by (metis dvd_add dvd_refl)
qed

lemma parseLine_v_dvd: "3 dvd length (v st) \<Longrightarrow> 3 dvd length (v (parseLine st line))"
  unfolding parseLine_def Let_def by (auto intro: dvd3_append simp del: length_append)

lemma parseLine_vn_dvd: "3 dvd length (vn st) \<Longrightarrow> 3 dvd length (vn (parseLine st line))"
  unfolding parseLine_def Let_def by (auto intro: dvd3_append simp del: length_append)

lemma foldl_parseLine_dvd:
  "3 dvd length (v st) \<Longrightarrow> 3 dvd length (vn st) \<Longrightarrow>
   3 dvd length (v (foldl parseLine st lines)) \<and> 3 dvd length (vn (foldl parseLine st lines))"
  by (induction lines arbitrary: st) (simp_all add: parseLine_v_dvd parseLine_vn_dvd)

text \<open>With triangular faces only, every face line adds one triangle and no other line adds any.\<close>

lemma lineTriangles_triangular:
  "(isFaceLine line \<Longrightarrow> length (lineParts line) = 4) \<Longrightarrow>
   lineTriangles line = (if isFaceLine line then 1 else 0)"
  by (auto simp: lineTriangles_def isFaceLine_def Let_def)

lemma sum_lineTriangles_triangular:
  "(\<And>line. line \<in> set lines \<Longrightarrow> isFaceLine line \<Longrightarrow> length (lineParts line) = 4) \<Longrightarrow>
   sum_list (map lineTriangles lines) = length (filter isFaceLine lines)"
proof (induction lines)
  case Nil
  then show ?case by simp
next
  case (Cons l ls)
  have "lineTriangles l = (if isFaceLine l then 1 else 0)"
    using Cons.prems by (intro lineTriangles_triangular) simp
  moreover have "sum_list (map lineTriangles ls) = length (filter isFaceLine ls)"
    using Cons.prems by (intro Cons.IH) simp
  ultimately show ?case by simp
qed

text \<open>
  Claim C2. For every input string the worker replies with a positions array and a
  normals array of equal length, a multiple of 3; when every face line of the text is
  triangular (three references), the number of position triples and the number of normal
  triples are both 3 times the number of face lines.
\<close>

theorem parse_buffer_lengths:
  "\<exists>ps ns. onmessage (JString text) = [Buffers ps ns] \<and>
     length ps = length ns \<and> 3 dvd length ps \<and>
     ((\<forall>line \<in> set (splitLines text). isFaceLine line \<longrightarrow> length (lineParts line) = 4) \<longrightarrow>
        length ps div 3 = 3 * faceCount text \<and> length ns div 3 = 3 * faceCount text)"
proof -
  define st where "st = foldl parseLine emptyParser (splitLines text)"
  define k where "k = sum_list (map lineTriangles (splitLines text))"
  have reply: "onmessage (JString text) = [Buffers (outPositions st) (outNormals st)]"
    by (simp add: onmessage_def typeof_def st_def Let_def)
  have lp: "length (outPositions st) = 9 * k"
    by (simp add: st_def k_def foldl_parseLine_length_outPositions emptyParser_def)
  have ln: "length (outNormals st) = 9 * k"
    by (simp add: st_def k_def foldl_parseLine_length_outNormals emptyParser_def)
  have tri: "k = faceCount text"
    if "\<forall>line \<in> set (splitLines text). isFaceLine line \<longrightarrow> length (lineParts line) = 4"
    unfolding k_def faceCount_def using that by (intro sum_lineTriangles_triangular) simp
  have "3 dvd length (outPositions st)"
    unfolding lp by presburger
  then show ?thesis
    using reply lp ln tri by auto
qed

theorem parse_buffer_lengths_witness:
  "\<exists>ps ns. onmessage (JString ''v 0 0 0\<newline>v 1 0 0\<newline>v 0 1 0\<newline>f 1 2 3\<newline>f -1 -2 -3'') = [Buffers ps ns] \<and>
     faceCount ''v 0 0 0\<newline>v 1 0 0\<newline>v 0 1 0\<newline>f 1 2 3\<newline>f -1 -2 -3'' = 2 \<and>
     length ps div 3 = 6 \<and> length ns div 3 = 6"
proof -
  let ?text = "''v 0 0 0\<newline>v 1 0 0\<newline>v 0 1 0\<newline>f 1 2 3\<newline>f -1 -2 -3''"
  have lines: "splitLines ?text = [''v 0 0 0'', ''v 1 0 0'', ''v 0 1 0'', ''f 1 2 3'', ''f -1 -2 -3'']"
    by simp
  have parts: "lineParts ''v 0 0 0'' = [''v'', ''0'', ''0'', ''0'']"
    "lineParts ''v 1 0 0'' = [''v'', ''1'', ''0'', ''0'']"
    "lineParts ''v 0 1 0'' = [''v'', ''0'', ''1'', ''0'']"
    "lineParts ''f 1 2 3'' = [''f'', ''1'', ''2'', ''3'']"
    "lineParts ''f -1 -2 -3'' = [''f'', ''-1'', ''-2'', ''-3'']"
    by (simp_all add: lineParts_def trim_def isWhiteSpace_def startsWith_def)
  have hyp: "\<forall>line \<in> set (splitLines ?text). isFaceLine line \<longrightarrow> length (lineParts line) = 4"
    unfolding lines by (simp add: isFaceLine_def parts)
  have count: "faceCount ?text = 2"
    unfolding faceCount_def lines by (simp add: isFaceLine_def parts)
  from parse_buffer_lengths [of ?text] hyp count show ?thesis
    by auto
qed

text \<open>A face line runs the fan loop over the corners read from its references.\<close>

lemma parseLine_face:
  assumes "lineParts line = ''f'' # refs" and "3 \<le> length refs"
  shows "parseLine st line = triangulate (map (parseCorner st) refs) 1 st"
  using assms by (simp add: parseLine_def Let_def)

lemma fan_positions:
  assumes "2 \<le> length refs"
  shows "concat (map (\<lambda>i. triple (v st) (vi (map (parseCorner st) refs ! 0)) @
                          triple (v st) (vi (map (parseCorner st) refs ! i)) @
                          triple (v st) (vi (map (parseCorner st) refs ! (i + 1))))
                     [1 ..< length refs - 1]) =
         concat (map (\<lambda>tri. concat (map (cornerPosition st) tri)) (fanTriangulation refs))"
proof -
  have first: "map (parseCorner st) refs ! 0 = parseCorner st (refs ! 0)"
    using assms by (cases refs) simp_all
  have "map (\<lambda>i. triple (v st) (vi (map (parseCorner st) refs ! 0)) @
                  triple (v st) (vi (map (parseCorner st) refs ! i)) @
                  triple (v st) (vi (map (parseCorner st) refs ! (i + 1))))
             [1 ..< length refs - 1] =
        map (\<lambda>tri. concat (map (cornerPosition st) tri)) (fanTriangulation refs)"
    using assms by (auto simp: fanTriangulation_def cornerPosition_def first)
  then show ?thesis by simp
qed

lemma fan_normals:
  assumes "2 \<le> length refs"
  shows "concat (map (\<lambda>i. cornerNormal (vn st) (map (parseCorner st) refs ! 0) @
                          cornerNormal (vn st) (map (parseCorner st) refs ! i) @
                          cornerNormal (vn st) (map (parseCorner st) refs ! (i + 1)))
                     [1 ..< length refs - 1]) =
         concat (map (\<lambda>tri. concat (map (cornerNormalOf st) tri)) (fanTriangulation refs))"
proof -
  have first: "map (parseCorner st) refs ! 0 = parseCorner st (refs ! 0)"
    using assms by (cases refs) simp_all
  have "map (\<lambda>i. cornerNormal (vn st) (map (parseCorner st) refs ! 0) @
                  cornerNormal (vn st) (map (parseCorner st) refs ! i) @
                  cornerNormal (vn st) (map (parseCorner st) refs ! (i + 1)))
             [1 ..< length refs - 1] =
        map (\<lambda>tri. concat (map (cornerNormalOf st) tri)) (fanTriangulation refs)"
    using assms by (auto simp: fanTriangulation_def cornerNormalOf_def first)
  then show ?thesis by simp
qed

lemma missing_normal_zero:
  "\<not> hasNormalRef tok \<Longrightarrow> cornerNormalOf st tok = [Zero, Zero, Zero]"
  by (auto simp: hasNormalRef_def cornerNormalOf_def cornerNormal_def parseCorner_def Let_def)

text \<open>
  Claim C3. A face line with \<open>k \<ge> 4\<close> vertex references (the proof needs only \<open>k \<ge> 3\<close>)
  is fan-triangulated into exactly \<open>k - 2\<close> triangles of three corners each; the line
  appends, triangle by triangle and corner by corner, one position triple to the
  positions and one normal triple to the normals; a corner whose reference has no normal
  part emits the zero vector as its normal.
\<close>

theorem fan_triangulation:
  assumes "lineParts line = ''f'' # refs" and "4 \<le> length refs"
  shows "length (fanTriangulation refs) = length refs - 2 \<and>
         list_all (\<lambda>tri. length tri = 3) (fanTriangulation refs) \<and>
         outPositions (parseLine st line) =
           outPositions st @
           concat (map (\<lambda>tri. concat (map (cornerPosition st) tri)) (fanTriangulation refs)) \<and>
         outNormals (parseLine st line) =
           outNormals st @
           concat (map (\<lambda>tri. concat (map (cornerNormalOf st) tri)) (fanTriangulation refs)) \<and>
         length (outPositions (parseLine st line)) =
           length (outPositions st) + 3 * (3 * (length refs - 2)) \<and>
         length (outNormals (parseLine st line)) =
           length (outNormals st) + 3 * (3 * (length refs - 2)) \<and>
         (\<forall>tok. length (cornerPosition st tok) = 3 \<and> length (cornerNormalOf st tok) = 3) \<and>
         (\<forall>tok. \<not> hasNormalRef tok \<longrightarrow> cornerNormalOf st tok = [Zero, Zero, Zero])"
proof -
  have len: "3 \<le> length refs" "2 \<le> length refs"
    using assms(2) by simp_all
  have run: "parseLine st line = triangulate (map (parseCorner st) refs) 1 st"
    using assms(1) len(1) by (rule parseLine_face)
  have "length (fanTriangulation refs) = length refs - 2"
    by (simp add: fanTriangulation_def)
  moreover have "list_all (\<lambda>tri. length tri = 3) (fanTriangulation refs)"
    by (simp add: fanTriangulation_def list_all_iff)
  moreover have "outPositions (parseLine st line) =
      outPositions st @
      concat (map (\<lambda>tri. concat (map (cornerPosition st) tri)) (fanTriangulation refs))"
    unfolding run triangulate_outPositions using fan_positions [OF len(2)] by simp
  moreover have "outNormals (parseLine st line) =
      outNormals st @
      concat (map (\<lambda>tri. concat (map (cornerNormalOf st) tri)) (fanTriangulation refs))"
    unfolding run triangulate_outNormals using fan_normals [OF len(2)] by simp
  moreover have "length (outPositions (parseLine st line)) =
      length (outPositions st) + 3 * (3 * (length refs - 2))"
    unfolding run triangulate_length_outPositions by simp
  moreover have "length (outNormals (parseLine st line)) =
      length (outNormals st) + 3 * (3 * (length refs - 2))"
    unfolding run triangulate_length_outNormals by simp
  moreover have "\<forall>tok. length (cornerPosition st tok) = 3 \<and> length (cornerNormalOf st tok) = 3"
    by (simp add: cornerPosition_def cornerNormalOf_def)
  moreover have "\<forall>tok. \<not> hasNormalRef tok \<longrightarrow> cornerNormalOf st tok = [Zero, Zero, Zero]"
    by (simp add: missing_normal_zero)
  ultimately show ?thesis by blast
qed

theorem fan_triangulation_witness:
  "lineParts ''f 1//1 2//1 3//1 4'' = ''f'' # [''1//1'', ''2//1'', ''3//1'', ''4''] \<and>
   fanTriangulation [''1//1'', ''2//1'', ''3//1'', ''4''] =
     [[''1//1'', ''2//1'', ''3//1''], [''1//1'', ''3//1'', ''4'']] \<and>
   outPositions (parseLine quadState ''f 1//1 2//1 3//1 4'') =
     map ParseFloat [''0'', ''0'', ''0'', ''1'', ''0'', ''0'', ''1'', ''1'', ''0'',
                     ''0'', ''0'', ''0'', ''1'', ''1'', ''0'', ''0'', ''1'', ''0''] \<and>
   outNormals (parseLine quadState ''f 1//1 2//1 3//1 4'') =
     map ParseFloat [''0'', ''0'', ''1'', ''0'', ''0'', ''1'', ''0'', ''0'', ''1'',
                     ''0'', ''0'', ''1'', ''0'', ''0'', ''1''] @ [Zero, Zero, Zero]"
proof -
  let ?refs = "[''1//1'', ''2//1'', ''3//1'', ''4'']"
  have parts: "lineParts ''f 1//1 2//1 3//1 4'' = ''f'' # ?refs"
    by (simp add: lineParts_def trim_def isWhiteSpace_def startsWith_def)
  have len: "4 \<le> length ?refs" by simp
  have fan: "fanTriangulation ?refs = [[''1//1'', ''2//1'', ''3//1''], [''1//1'', ''3//1'', ''4'']]"
    by (simp add: fanTriangulation_def upt_conv_Cons)
  have ints: "parseInt10 ''1'' = Some 1" "parseInt10 ''2'' = Some 2" "parseInt10 ''3'' = Some 3"
    "parseInt10 ''4'' = Some 4"
    by (simp_all add: parseInt10_def isWhiteSpace_def isDigit_def digitVal_def)
  have corners:
    "parseCorner quadState ''1//1'' = \<lparr> vi = Some 0, ni = Some 0 \<rparr>"
    "parseCorner quadState ''2//1'' = \<lparr> vi = Some 1, ni = Some 0 \<rparr>"
    "parseCorner quadState ''3//1'' = \<lparr> vi = Some 2, ni = Some 0 \<rparr>"
    "parseCorner quadState ''4'' = \<lparr> vi = Some 3, ni = Some (- 1) \<rparr>"
    by (simp_all add: parseCorner_def parseVertexIndex_def parseNormalIndex_def ints Let_def)
  have pos:
    "cornerPosition quadState ''1//1'' = map ParseFloat [''0'', ''0'', ''0'']"
    "cornerPosition quadState ''2//1'' = map ParseFloat [''1'', ''0'', ''0'']"
    "cornerPosition quadState ''3//1'' = map ParseFloat [''1'', ''1'', ''0'']"
    "cornerPosition quadState ''4'' = map ParseFloat [''0'', ''1'', ''0'']"
    unfolding cornerPosition_def corners
    by (simp_all add: triple_def elemAt_def quadState_def)
  have nrm:
    "cornerNormalOf quadState ''1//1'' = map ParseFloat [''0'', ''0'', ''1'']"
    "cornerNormalOf quadState ''2//1'' = map ParseFloat [''0'', ''0'', ''1'']"
    "cornerNormalOf quadState ''3//1'' = map ParseFloat [''0'', ''0'', ''1'']"
    "cornerNormalOf quadState ''4'' = [Zero, Zero, Zero]"
    unfolding cornerNormalOf_def corners
    by (simp_all add: cornerNormal_def triple_def elemAt_def quadState_def)
  have out: "outPositions quadState = []" "outNormals quadState = []"
    by (simp_all add: quadState_def)
  from fan_triangulation [OF parts len, of quadState] show ?thesis
    unfolding fan by (simp add: parts pos nrm out)
qed

text \<open>The triple read at an index inside the array is the slice of three numbers there.\<close>

lemma triple_slice:
  assumes "3 dvd length xs" and "0 \<le> p" and "p < int (length xs div 3)"
  shows "triple xs (Some p) = take 3 (drop (3 * nat p) xs)"
proof -
  obtain m where m: "length xs = 3 * m"
    using assms(1) by (auto elim: dvdE)
  define q where "q = nat p"
  have p: "p = int q" using assms(2) by (simp add: q_def)
  have q: "q < m" using assms(3) m p by simp
  have idx: "nat (int q * 3) = 3 * q" "nat (int q * 3 + 1) = 3 * q + 1"
    "nat (int q * 3 + 2) = 3 * q + 2"
    by (simp_all add: nat_add_distrib nat_mult_distrib)
  have len: "3 * q + 2 < length xs" using q m by simp
  have "triple xs (Some p) = [xs ! (3 * q), xs ! (3 * q + 1), xs ! (3 * q + 2)]"
    using len by (simp add: triple_def elemAt_def p idx)
  also have "\<dots> = take 3 (drop (3 * q) xs)"
    using len by (auto simp: list_eq_iff_nth_eq nth_Cons' numeral_3_eq_3 less_Suc_eq add.commute)
  finally show ?thesis by (simp add: q_def)
qed

text \<open>
  The vertex array and the normal array, after any lines: the numbers of the vertex
  lines, and of the normal lines, read so far, in order.
\<close>

lemma parseLine_v:
  "v (parseLine st line) = (if isVertexLine line then v st @ lineNumbers line else v st)"
  by (auto simp: parseLine_def isVertexLine_def lineNumbers_def Let_def)

lemma parseLine_vn:
  "vn (parseLine st line) = (if isNormalLine line then vn st @ lineNumbers line else vn st)"
  by (auto simp: parseLine_def isNormalLine_def lineNumbers_def Let_def)

lemma foldl_parseLine_v:
  "v (foldl parseLine st lines) = v st @ concat (map lineNumbers (filter isVertexLine lines))"
  by (induction lines arbitrary: st) (simp_all add: parseLine_v)

lemma foldl_parseLine_vn:
  "vn (foldl parseLine st lines) = vn st @ concat (map lineNumbers (filter isNormalLine lines))"
  by (induction lines arbitrary: st) (simp_all add: parseLine_vn)

lemma length_lineNumbers [simp]: "length (lineNumbers line) = 3"
  by (simp add: lineNumbers_def)

lemma concat_triples_slice:
  assumes "\<And>x. x \<in> set xs \<Longrightarrow> length (f x) = 3" and "k < length xs"
  shows "take 3 (drop (3 * k) (concat (map f xs))) = f (xs ! k)"
  using assms
proof (induction xs arbitrary: k)
  case Nil
  then show ?case by simp
next
  case (Cons x xs)
  show ?case
  proof (cases k)
    case 0
    then show ?thesis using Cons.prems(1) [of x] by simp
  next
    case (Suc j)
    have "3 * k = length (f x) + 3 * j"
      using Suc Cons.prems(1) [of x] by simp
    then have "take 3 (drop (3 * k) (concat (map f (x # xs)))) =
        take 3 (drop (3 * j) (concat (map f xs)))"
      by simp
    also have "\<dots> = f (xs ! j)"
      using Cons.prems Suc by (intro Cons.IH) simp_all
    finally show ?thesis using Suc by simp
  qed
qed

lemma parsed_arrays:
  "v (foldl parseLine emptyParser pre) = concat (map lineNumbers (filter isVertexLine pre))"
  "vn (foldl parseLine emptyParser pre) = concat (map lineNumbers (filter isNormalLine pre))"
  "length (v (foldl parseLine emptyParser pre)) = 3 * length (filter isVertexLine pre)"
  "length (vn (foldl parseLine emptyParser pre)) = 3 * length (filter isNormalLine pre)"
  by (simp_all add: foldl_parseLine_v foldl_parseLine_vn emptyParser_def length_concat_const [where k = 3])

text \<open>The triple read at a position inside the array is the numbers of that line.\<close>

lemma triple_of_lines:
  assumes "0 \<le> p" and "p < int (length ls)"
  shows "triple (concat (map lineNumbers ls)) (Some p) = lineNumbers (ls ! nat p)"
proof -
  have len: "length (concat (map lineNumbers ls)) = 3 * length ls"
    by (simp add: length_concat_const [where k = 3])
  have "triple (concat (map lineNumbers ls)) (Some p) =
      take 3 (drop (3 * nat p) (concat (map lineNumbers ls)))"
    using assms by (intro triple_slice) (simp_all add: len)
  also have "\<dots> = lineNumbers (ls ! nat p)"
    using assms by (intro concat_triples_slice) simp_all
  finally show ?thesis .
qed

text \<open>
  Claim C4. Let the parser have read the lines \<open>pre\<close> when it meets a face reference
  \<open>tok\<close> whose vertex part \<^verbatim>\<open>parseInt\<close> reads as \<open>n\<close>. A negative \<open>n\<close> resolves to the
  zero-based position \<open>count + n\<close>, the count being the number of vertices accumulated so
  far (the vertex lines among \<open>pre\<close>); a positive \<open>n\<close> resolves to \<open>n - 1\<close>. The corner
  then emits the numbers of the vertex line at the resolved position, so \<^verbatim>\<open>-1\<close> emits the
  last vertex seen so far. The normal part of the reference resolves in the same way
  against the normals accumulated so far. The positions a face line appends are those of
  its corners, resolved in the state in which the line is read.
\<close>

theorem face_index_resolution:
  assumes "parseInt10 (splitOn (CHR ''/'') tok ! 0) = Some n"
  shows "let st = foldl parseLine emptyParser pre;
             vlines = filter isVertexLine pre;
             nlines = filter isNormalLine pre
         in (n < 0 \<longrightarrow> vi (parseCorner st tok) = Some (int (length vlines) + n)) \<and>
            (0 < n \<longrightarrow> vi (parseCorner st tok) = Some (n - 1)) \<and>
            (\<forall>p. vi (parseCorner st tok) = Some p \<and> 0 \<le> p \<and> p < int (length vlines) \<longrightarrow>
                 cornerPosition st tok = lineNumbers (vlines ! nat p)) \<and>
            (n = - 1 \<and> vlines \<noteq> [] \<longrightarrow> cornerPosition st tok = lineNumbers (last vlines)) \<and>
            (\<forall>m. hasNormalRef tok \<and> parseInt10 (splitOn (CHR ''/'') tok ! 2) = Some m \<longrightarrow>
                 (m < 0 \<longrightarrow> ni (parseCorner st tok) = Some (int (length nlines) + m)) \<and>
                 (0 < m \<longrightarrow> ni (parseCorner st tok) = Some (m - 1)) \<and>
                 (\<forall>q. ni (parseCorner st tok) = Some q \<and> 0 \<le> q \<and> q < int (length nlines) \<longrightarrow>
                      cornerNormalOf st tok = lineNumbers (nlines ! nat q))) \<and>
            (\<forall>line refs. lineParts line = ''f'' # refs \<and> 3 \<le> length refs \<longrightarrow>
                 outPositions (foldl parseLine emptyParser (pre @ [line])) =
                   outPositions st @
                   concat (map (\<lambda>tri. concat (map (cornerPosition st) tri)) (fanTriangulation refs)) \<and>
                 outNormals (foldl parseLine emptyParser (pre @ [line])) =
                   outNormals st @
                   concat (map (\<lambda>tri. concat (map (cornerNormalOf st) tri)) (fanTriangulation refs)))"
proof -
  define st where "st = foldl parseLine emptyParser pre"
  define vlines where "vlines = filter isVertexLine pre"
  define nlines where "nlines = filter isNormalLine pre"
  have arr: "v st = concat (map lineNumbers vlines)" "vn st = concat (map lineNumbers nlines)"
    by (simp_all add: st_def vlines_def nlines_def parsed_arrays)
  have cnt: "int (length (v st)) div 3 = int (length vlines)"
      "int (length (vn st)) div 3 = int (length nlines)"
    unfolding st_def vlines_def nlines_def parsed_arrays(3,4) by simp_all
  have vi: "vi (parseCorner st tok) = Some (if n < 0 then int (length vlines) + n else n - 1)"
    using assms by (simp add: parseCorner_def Let_def parseVertexIndex_def cnt)
  have neg: "n < 0 \<longrightarrow> vi (parseCorner st tok) = Some (int (length vlines) + n)"
    by (simp add: vi)
  have pos: "0 < n \<longrightarrow> vi (parseCorner st tok) = Some (n - 1)"
    by (simp add: vi)
  have read: "\<forall>p. vi (parseCorner st tok) = Some p \<and> 0 \<le> p \<and> p < int (length vlines) \<longrightarrow>
      cornerPosition st tok = lineNumbers (vlines ! nat p)"
    by (simp add: cornerPosition_def arr triple_of_lines)
  have last: "n = - 1 \<and> vlines \<noteq> [] \<longrightarrow> cornerPosition st tok = lineNumbers (last vlines)"
  proof (intro impI)
    assume a: "n = - 1 \<and> vlines \<noteq> []"
    then have p: "vi (parseCorner st tok) = Some (int (length vlines) - 1)"
      by (simp add: vi)
    have "0 \<le> int (length vlines) - 1" "int (length vlines) - 1 < int (length vlines)"
      using a by (cases vlines; simp)+
    with p read have "cornerPosition st tok = lineNumbers (vlines ! nat (int (length vlines) - 1))"
      by blast
    moreover have "nat (int (length vlines) - 1) = length vlines - 1"
      by simp
    ultimately show "cornerPosition st tok = lineNumbers (last vlines)"
      using a by (simp add: last_conv_nth)
  qed
  have nrm: "\<forall>m. hasNormalRef tok \<and> parseInt10 (splitOn (CHR ''/'') tok ! 2) = Some m \<longrightarrow>
      (m < 0 \<longrightarrow> ni (parseCorner st tok) = Some (int (length nlines) + m)) \<and>
      (0 < m \<longrightarrow> ni (parseCorner st tok) = Some (m - 1)) \<and>
      (\<forall>q. ni (parseCorner st tok) = Some q \<and> 0 \<le> q \<and> q < int (length nlines) \<longrightarrow>
           cornerNormalOf st tok = lineNumbers (nlines ! nat q))"
  proof (intro allI impI)
    fix m
    assume a: "hasNormalRef tok \<and> parseInt10 (splitOn (CHR ''/'') tok ! 2) = Some m"
    then have ni: "ni (parseCorner st tok) = Some (if m < 0 then int (length nlines) + m else m - 1)"
      by (simp add: parseCorner_def Let_def parseNormalIndex_def cnt hasNormalRef_def)
    have "\<forall>q. ni (parseCorner st tok) = Some q \<and> 0 \<le> q \<and> q < int (length nlines) \<longrightarrow>
        cornerNormalOf st tok = lineNumbers (nlines ! nat q)"
      by (simp add: cornerNormalOf_def cornerNormal_def arr triple_of_lines)
    then show "(m < 0 \<longrightarrow> ni (parseCorner st tok) = Some (int (length nlines) + m)) \<and>
      (0 < m \<longrightarrow> ni (parseCorner st tok) = Some (m - 1)) \<and>
      (\<forall>q. ni (parseCorner st tok) = Some q \<and> 0 \<le> q \<and> q < int (length nlines) \<longrightarrow>
           cornerNormalOf st tok = lineNumbers (nlines ! nat q))"
      by (simp add: ni)
  qed
  have face: "\<forall>line refs. lineParts line = ''f'' # refs \<and> 3 \<le> length refs \<longrightarrow>
      outPositions (foldl parseLine emptyParser (pre @ [line])) =
        outPositions st @
        concat (map (\<lambda>tri. concat (map (cornerPosition st) tri)) (fanTriangulation refs)) \<and>
      outNormals (foldl parseLine emptyParser (pre @ [line])) =
        outNormals st @
        concat (map (\<lambda>tri. concat (map (cornerNormalOf st) tri)) (fanTriangulation refs))"
  proof (intro allI impI)
    fix line refs
    assume a: "lineParts line = ''f'' # refs \<and> 3 \<le> length refs"
    then have parts: "lineParts line = ''f'' # refs" and len: "3 \<le> length refs" "2 \<le> length refs"
      by simp_all
    have run: "foldl parseLine emptyParser (pre @ [line]) =
        triangulate (map (parseCorner st) refs) 1 st"
      using parseLine_face [OF parts len(1), of st] by (simp add: st_def)
    show "outPositions (foldl parseLine emptyParser (pre @ [line])) =
        outPositions st @
        concat (map (\<lambda>tri. concat (map (cornerPosition st) tri)) (fanTriangulation refs)) \<and>
      outNormals (foldl parseLine emptyParser (pre @ [line])) =
        outNormals st @
        concat (map (\<lambda>tri. concat (map (cornerNormalOf st) tri)) (fanTriangulation refs))"
      unfolding run triangulate_outPositions triangulate_outNormals
      using fan_positions [OF len(2), of st] fan_normals [OF len(2), of st] by simp
  qed
  from neg pos read last nrm face show ?thesis
    unfolding Let_def st_def [symmetric] vlines_def [symmetric] nlines_def [symmetric]
    by (intro conjI)
qed

text \<open>
  Three vertices and a normal, then a face: \<^verbatim>\<open>-1\<close> is the third vertex, \<^verbatim>\<open>-3\<close> the first,
  \<^verbatim>\<open>2\<close> the second, and the worker's positions are those three vertices.
\<close>

theorem face_index_resolution_witness:
  "vi (parseCorner (foldl parseLine emptyParser [''v 1 2 3'', ''v 4 5 6'', ''vn 0 0 1'', ''v 7 8 9''])
        ''-1//-1'') = Some 2 \<and>
   ni (parseCorner (foldl parseLine emptyParser [''v 1 2 3'', ''v 4 5 6'', ''vn 0 0 1'', ''v 7 8 9''])
        ''-1//-1'') = Some 0 \<and>
   vi (parseCorner (foldl parseLine emptyParser [''v 1 2 3'', ''v 4 5 6'', ''vn 0 0 1'', ''v 7 8 9''])
        ''2'') = Some 1 \<and>
   (\<exists>ns. onmessage (JString ''v 1 2 3\<newline>v 4 5 6\<newline>vn 0 0 1\<newline>v 7 8 9\<newline>f -1//-1 -3 2'') =
      [Buffers (map ParseFloat [''7'', ''8'', ''9'', ''1'', ''2'', ''3'', ''4'', ''5'', ''6'']) ns] \<and>
      take 3 ns = map ParseFloat [''0'', ''0'', ''1''])"
proof -
  let ?pre = "[''v 1 2 3'', ''v 4 5 6'', ''vn 0 0 1'', ''v 7 8 9'']"
  let ?line = "''f -1//-1 -3 2''"
  let ?refs = "[''-1//-1'', ''-3'', ''2'']"
  define st where "st = foldl parseLine emptyParser ?pre"
  have parts:
    "lineParts ''v 1 2 3'' = [''v'', ''1'', ''2'', ''3'']"
    "lineParts ''v 4 5 6'' = [''v'', ''4'', ''5'', ''6'']"
    "lineParts ''vn 0 0 1'' = [''vn'', ''0'', ''0'', ''1'']"
    "lineParts ''v 7 8 9'' = [''v'', ''7'', ''8'', ''9'']"
    "lineParts ?line = ''f'' # ?refs"
    by (simp_all add: lineParts_def trim_def isWhiteSpace_def startsWith_def)
  have vlines: "filter isVertexLine ?pre = [''v 1 2 3'', ''v 4 5 6'', ''v 7 8 9'']"
    by (simp add: isVertexLine_def parts)
  have nlines: "filter isNormalLine ?pre = [''vn 0 0 1'']"
    by (simp add: isNormalLine_def parts)
  have nums:
    "lineNumbers ''v 1 2 3'' = map ParseFloat [''1'', ''2'', ''3'']"
    "lineNumbers ''v 4 5 6'' = map ParseFloat [''4'', ''5'', ''6'']"
    "lineNumbers ''v 7 8 9'' = map ParseFloat [''7'', ''8'', ''9'']"
    "lineNumbers ''vn 0 0 1'' = map ParseFloat [''0'', ''0'', ''1'']"
    by (simp_all add: lineNumbers_def parts)
  have segs: "splitOn (CHR ''/'') ''-1//-1'' = [''-1'', [], ''-1'']"
    "splitOn (CHR ''/'') ''-3'' = [''-3'']" "splitOn (CHR ''/'') ''2'' = [''2'']"
    by simp_all
  have ints: "parseInt10 ''-1'' = Some (- 1)" "parseInt10 ''-3'' = Some (- 3)"
    "parseInt10 ''2'' = Some 2"
    by (simp_all add: parseInt10_def isWhiteSpace_def isDigit_def digitVal_def)
  have a: "parseInt10 (splitOn (CHR ''/'') ''-1//-1'' ! 0) = Some (- 1)"
    and b: "parseInt10 (splitOn (CHR ''/'') ''-3'' ! 0) = Some (- 3)"
    and c: "parseInt10 (splitOn (CHR ''/'') ''2'' ! 0) = Some 2"
    by (simp_all add: segs ints)
  have hasN: "hasNormalRef ''-1//-1''" "parseInt10 (splitOn (CHR ''/'') ''-1//-1'' ! 2) = Some (- 1)"
    by (simp_all add: hasNormalRef_def segs ints)
  note A = face_index_resolution [OF a, of ?pre, unfolded Let_def vlines nlines, folded st_def]
  note B = face_index_resolution [OF b, of ?pre, unfolded Let_def vlines nlines, folded st_def]
  note C = face_index_resolution [OF c, of ?pre, unfolded Let_def vlines nlines, folded st_def]
  have viA: "vi (parseCorner st ''-1//-1'') = Some 2" using A by simp
  have viB: "vi (parseCorner st ''-3'') = Some 0" using B by simp
  have viC: "vi (parseCorner st ''2'') = Some 1" using C by simp
  have niA: "ni (parseCorner st ''-1//-1'') = Some 0" using A hasN by simp
  have posA: "cornerPosition st ''-1//-1'' = map ParseFloat [''7'', ''8'', ''9'']"
    using A viA by (simp add: nums)
  have posB: "cornerPosition st ''-3'' = map ParseFloat [''1'', ''2'', ''3'']"
    using B viB by (simp add: nums)
  have posC: "cornerPosition st ''2'' = map ParseFloat [''4'', ''5'', ''6'']"
    using C viC by (simp add: nums)
  have nrmA: "cornerNormalOf st ''-1//-1'' = map ParseFloat [''0'', ''0'', ''1'']"
    using A hasN niA by (simp add: nums)
  have "length (outPositions st) = 0" "length (outNormals st) = 0"
    unfolding st_def foldl_parseLine_length_outPositions foldl_parseLine_length_outNormals
    by (simp_all add: emptyParser_def lineTriangles_def parts)
  then have empty: "outPositions st = []" "outNormals st = []"
    by simp_all
  have fan: "fanTriangulation ?refs = [?refs]"
    by (simp add: fanTriangulation_def)
  have len: "3 \<le> length ?refs" by simp
  have out: "outPositions (foldl parseLine emptyParser (?pre @ [?line])) =
        map ParseFloat [''7'', ''8'', ''9'', ''1'', ''2'', ''3'', ''4'', ''5'', ''6'']"
      "take 3 (outNormals (foldl parseLine emptyParser (?pre @ [?line]))) =
        map ParseFloat [''0'', ''0'', ''1'']"
  proof -
    note F = A [THEN conjunct2, THEN conjunct2, THEN conjunct2, THEN conjunct2, THEN conjunct2,
      rule_format, of ?line ?refs]
    have pl: "lineParts ?line = ''f'' # ?refs \<and> 3 \<le> length ?refs"
      using parts(5) len by simp
    from F [OF pl] have
      "outPositions (foldl parseLine emptyParser (?pre @ [?line])) =
         outPositions st @
         concat (map (\<lambda>tri. concat (map (cornerPosition st) tri)) (fanTriangulation ?refs))"
      "outNormals (foldl parseLine emptyParser (?pre @ [?line])) =
         outNormals st @
         concat (map (\<lambda>tri. concat (map (cornerNormalOf st) tri)) (fanTriangulation ?refs))"
      by simp_all
    then show
      "outPositions (foldl parseLine emptyParser (?pre @ [?line])) =
        map ParseFloat [''7'', ''8'', ''9'', ''1'', ''2'', ''3'', ''4'', ''5'', ''6'']"
      "take 3 (outNormals (foldl parseLine emptyParser (?pre @ [?line]))) =
        map ParseFloat [''0'', ''0'', ''1'']"
      unfolding fan empty by (simp_all add: posA posB posC nrmA)
  qed
  have lines: "splitLines ''v 1 2 3\<newline>v 4 5 6\<newline>vn 0 0 1\<newline>v 7 8 9\<newline>f -1//-1 -3 2'' = ?pre @ [?line]"
    by simp
  have reply: "onmessage (JString ''v 1 2 3\<newline>v 4 5 6\<newline>vn 0 0 1\<newline>v 7 8 9\<newline>f -1//-1 -3 2'') =
      [Buffers (outPositions (foldl parseLine emptyParser (?pre @ [?line])))
         (outNormals (foldl parseLine emptyParser (?pre @ [?line])))]"
    unfolding onmessage_def lines by (simp add: typeof_def Let_def)
  show ?thesis
    unfolding reply st_def [symmetric] using viA niA viC out by simp
qed

text \<open>
  Whatever the faces of a mesh text, the two arrays of the reply hold three triples for
  each triangle, a face line with \<open>k \<ge> 3\<close> references counting \<open>k - 2\<close> triangles.
\<close>

theorem parse_triangle_count:
  "\<exists>ps ns. onmessage (JString text) = [Buffers ps ns] \<and>
     length ps = 9 * sum_list (map lineTriangles (splitLines text)) \<and>
     length ns = 9 * sum_list (map lineTriangles (splitLines text))"
  by (simp add: onmessage_def typeof_def Let_def foldl_parseLine_length_outPositions
      foldl_parseLine_length_outNormals emptyParser_def)

section \<open>The worker's reply\<close>

text \<open>
  Claim C6. On one message the worker posts exactly one reply; the reply is the error
  descriptor if and only if the data is not a string, and it is the pair of buffers if
  and only if the data is a string.
\<close>

theorem onmessage_one_reply:
  "\<exists>r. onmessage d = [r] \<and>
       ((\<exists>e. r = ErrorReply e) \<longleftrightarrow> typeof d \<noteq> ''string'') \<and>
       ((\<exists>ps ns. r = Buffers ps ns) \<longleftrightarrow> typeof d = ''string'')"
  by (cases d) (simp_all add: onmessage_def typeof_def Let_def)

section \<open>Decimation\<close>

lemma everyNth_Suc:
  "everyNth a step i (Suc k) =
     [getX a i, getY a i, getZ a i] @ everyNth a step (i + step) k"
proof -
  have "map (\<lambda>j. [getX a (i + j * step), getY a (i + j * step), getZ a (i + j * step)]) [0 ..< Suc k] =
        [getX a i, getY a i, getZ a i] #
        map (\<lambda>j. [getX a (i + step + j * step), getY a (i + step + j * step),
                   getZ a (i + step + j * step)]) [0 ..< k]"
    by (simp only: map_upt_Suc) (simp add: add.assoc)
  then show ?thesis
    unfolding everyNth_def by simp
qed

lemma length_everyNth [simp]: "length (everyNth a step i k) = 3 * k"
  by (induction k arbitrary: i) (simp_all add: everyNth_Suc everyNth_def)

text \<open>The number of iterations the loop has left at \<open>i\<close>.\<close>

lemma iterations_step:
  assumes "i < n" and "1 \<le> (step :: nat)"
  shows "(n - i + step - 1) div step = Suc ((n - (i + step) + step - 1) div step)"
proof (cases "step \<le> n - i")
  case True
  then have eq: "n - i + step - 1 = (n - (i + step) + step - 1) + step"
    using assms by simp
  have "(x + step) div step = Suc (x div step)" for x
    using assms(2) by simp
  then show ?thesis
    by (simp only: eq)
next
  case False
  then have z: "n - (i + step) = 0" by simp
  have "step \<le> n - i + step - 1" "n - i + step - 1 < 2 * step"
    using assms False by simp_all
  then have "(n - i + step - 1) div step = 1"
    by (intro div_nat_eqI) simp_all
  then show ?thesis
    using z assms(2) by simp
qed

lemma decimateLoop_result:
  assumes "1 \<le> step"
  shows "decimateLoop pos nrm step i outPos outNorm =
           Some (outPos @ everyNth pos step i ((count pos - i + step - 1) div step),
                 case nrm of
                   None \<Rightarrow> outNorm
                 | Some n \<Rightarrow>
                     map_option
                       (\<lambda>out. out @ everyNth n step i ((count pos - i + step - 1) div step))
                       outNorm)"
proof (induction "count pos - i" arbitrary: i outPos outNorm rule: less_induct)
  case less
  show ?case
  proof (cases "i < count pos")
    case True
    have smaller: "count pos - (i + step) < count pos - i"
      using True assms by simp
    note iter = iterations_step [OF True assms]
    show ?thesis
      apply (subst decimateLoop.simps)
      apply (simp only: True if_True less [OF smaller] iter everyNth_Suc)
      apply (cases nrm; cases outNorm; simp)
      done
  next
    case False
    then have "(count pos - i + step - 1) div step = 0"
      using assms by simp
    then show ?thesis
      using False
      by (subst decimateLoop.simps) (cases outNorm; simp add: everyNth_def split: option.splits)
  qed
qed

lemma ceiling_div_nat:
  assumes "1 \<le> (n :: nat)"
  shows "nat \<lceil>real m / real n\<rceil> = (m + n - 1) div n"
proof -
  define q where "q = (m + n - 1) div n"
  have up: "m \<le> q * n"
  proof -
    have "m + n - 1 = q * n + (m + n - 1) mod n"
      by (simp add: q_def)
    moreover have "(m + n - 1) mod n \<le> n - 1"
      using assms by (metis Suc_pred' less_Suc_eq_le mod_less_divisor One_nat_def Suc_le_lessD)
    ultimately show ?thesis using assms by linarith
  qed
  have down: "q * n < m + n"
  proof -
    have "q * n \<le> m + n - 1"
      by (simp add: q_def)
    then show ?thesis using assms by linarith
  qed
  have "\<lceil>real m / real n\<rceil> = int q"
  proof (rule ceiling_unique)
    have "real q * real n < real m + real n"
      using down by (metis of_nat_add of_nat_less_iff of_nat_mult)
    then have "(real q - 1) * real n < real m"
      by (simp add: algebra_simps)
    then show "of_int (int q) - 1 < real m / real n"
      using assms by (simp add: pos_less_divide_eq)
    have "real m \<le> real q * real n"
      using up by (metis of_nat_le_iff of_nat_mult)
    then show "real m / real n \<le> of_int (int q)"
      using assms by (simp add: pos_divide_le_eq)
  qed
  then show ?thesis by (simp add: q_def)
qed

text \<open>
  Claim C5. Decimating a geometry whose position attribute holds \<open>M\<close> triples with a step
  \<open>N \<ge> 1\<close> returns a geometry with exactly \<open>\<lceil>M / N\<rceil>\<close> position triples, the input's
  triples \<open>0\<close>, \<open>N\<close>, \<open>2 * N\<close>, ...; when \<open>M > 0\<close> the first of them is the input's triple \<open>0\<close>.
\<close>

theorem decimation_count:
  assumes "position g = Some pos" and "1 \<le> N"
  shows "\<exists>d. decimateForPoints g N = Some (Geometry d) \<and>
             length (positionArray d) = 3 * nat \<lceil>real (count pos) / real N\<rceil> \<and>
             positionArray d = everyNth pos N 0 (nat \<lceil>real (count pos) / real N\<rceil>) \<and>
             (0 < count pos \<longrightarrow> take 3 (positionArray d) = [getX pos 0, getY pos 0, getZ pos 0])"
proof -
  define k where "k = nat \<lceil>real (count pos) / real N\<rceil>"
  have k: "(count pos - 0 + N - 1) div N = k"
    using ceiling_div_nat [OF assms(2), of "count pos"] by (simp add: k_def)
  obtain outNorm where loop:
    "decimateLoop pos (normal g) N 0 []
       (case normal g of None \<Rightarrow> None | Some n \<Rightarrow> Some []) =
     Some (everyNth pos N 0 k, outNorm)"
    using decimateLoop_result [OF assms(2), of pos "normal g" 0 "[]"] k by simp
  define d where "d = \<lparr> positionArray = everyNth pos N 0 k, normalArray = outNorm \<rparr>"
  have res: "decimateForPoints g N = Some (Geometry d)"
    by (simp add: decimateForPoints_def assms(1) loop d_def)
  have first: "take 3 (positionArray d) = [getX pos 0, getY pos 0, getZ pos 0]" if "0 < count pos"
  proof -
    have "0 < k"
    proof -
      have "N \<le> count pos - 0 + N - 1" using that by simp
      then have "0 < (count pos - 0 + N - 1) div N"
        using assms(2) by (simp add: div_greater_zero_iff)
      then show ?thesis by (simp only: k)
    qed
    then obtain k' where "k = Suc k'" by (cases k) simp_all
    then show ?thesis by (simp add: d_def everyNth_Suc)
  qed
  show ?thesis
    using res first by (intro exI [of _ d]) (simp add: d_def k_def)
qed


theorem decimation_count_witness:
  "\<exists>d. decimateForPoints
          \<lparr> position = Some \<lparr> count = 5, getX = (\<lambda>i. 3 * i), getY = (\<lambda>i. 3 * i + 1),
                               getZ = (\<lambda>i. 3 * i + 2) \<rparr>,
            normal = None \<rparr> 2 = Some (Geometry d) \<and>
       length (positionArray d) = 9 \<and>
       positionArray d = [0, 1, 2, 6, 7, 8, 12, 13, 14 :: nat]"
proof -
  let ?pos = "\<lparr> count = 5, getX = (\<lambda>i. 3 * i), getY = (\<lambda>i. 3 * i + 1),
                 getZ = (\<lambda>i. 3 * i + 2 :: nat) \<rparr>"
  let ?g = "\<lparr> position = Some ?pos, normal = None \<rparr>"
  have pos: "position ?g = Some ?pos" by simp
  have step: "1 \<le> (2 :: nat)" by simp
  have k: "nat \<lceil>real (count ?pos) / real 2\<rceil> = 3"
    by simp
  have items: "everyNth ?pos 2 0 3 = [0, 1, 2, 6, 7, 8, 12, 13, 14]"
    by (simp add: everyNth_def upt_conv_Cons)
  from decimation_count [OF pos step] show ?thesis
    unfolding k items by auto
qed

text \<open>
  The decimated geometry has a normal attribute exactly when the input has one, and it
  holds the normals of the items kept.
\<close>

theorem decimation_normals:
  assumes "position g = Some pos" and "1 \<le> N"
  shows "\<exists>d. decimateForPoints g N = Some (Geometry d) \<and>
           normalArray d =
             map_option (\<lambda>n. everyNth n N 0 (nat \<lceil>real (count pos) / real N\<rceil>)) (normal g)"
proof -
  define k where "k = nat \<lceil>real (count pos) / real N\<rceil>"
  have k: "(count pos - 0 + N - 1) div N = k"
    using ceiling_div_nat [OF assms(2), of "count pos"] by (simp add: k_def)
  have loop: "decimateLoop pos (normal g) N 0 []
       (case normal g of None \<Rightarrow> None | Some n \<Rightarrow> Some []) =
     Some (everyNth pos N 0 k, map_option (\<lambda>n. everyNth n N 0 k) (normal g))"
    using decimateLoop_result [OF assms(2), of pos "normal g" 0 "[]"] k
    by (cases "normal g") simp_all
  show ?thesis
    by (simp add: decimateForPoints_def assms(1) loop k_def)
qed

theorem decimation_normals_witness:
  "\<exists>d. decimateForPoints
          \<lparr> position = Some \<lparr> count = 3, getX = (\<lambda>i. 3 * i), getY = (\<lambda>i. 3 * i + 1),
                               getZ = (\<lambda>i. 3 * i + 2) \<rparr>,
            normal = Some \<lparr> count = 3, getX = (\<lambda>i. 10 * i), getY = (\<lambda>i. 10 * i + 1),
                             getZ = (\<lambda>i. 10 * i + 2) \<rparr> \<rparr> 2 = Some (Geometry d) \<and>
       normalArray d = Some [0, 1, 2, 20, 21, 22 :: nat]"
proof -
  let ?pos = "\<lparr> count = 3, getX = (\<lambda>i. 3 * i), getY = (\<lambda>i. 3 * i + 1),
                 getZ = (\<lambda>i. 3 * i + 2 :: nat) \<rparr>"
  let ?nrm = "\<lparr> count = 3, getX = (\<lambda>i. 10 * i), getY = (\<lambda>i. 10 * i + 1),
                 getZ = (\<lambda>i. 10 * i + 2 :: nat) \<rparr>"
  let ?g = "\<lparr> position = Some ?pos, normal = Some ?nrm \<rparr>"
  have pos: "position ?g = Some ?pos" by simp
  have step: "1 \<le> (2 :: nat)" by simp
  have k: "nat \<lceil>real (count ?pos) / real 2\<rceil> = 2"
    by simp
  have items: "everyNth ?nrm 2 0 2 = [0, 1, 2, 20, 21, 22]"
    by (simp add: everyNth_def upt_conv_Cons)
  from decimation_normals [OF pos step] obtain d where
    d: "decimateForPoints ?g 2 = Some (Geometry d)"
      "normalArray d = map_option (\<lambda>n. everyNth n 2 0 (nat \<lceil>real (count ?pos) / real 2\<rceil>)) (normal ?g)"
    by blast
  have "normalArray d = Some (everyNth ?nrm 2 0 2)"
    unfolding d(2) k by simp
  then have "normalArray d = Some [0, 1, 2, 20, 21, 22]"
    by (simp only: items)
  with d(1) show ?thesis by blast
qed

text \<open>With the step 0 the loop index never moves: from inside the attribute it never returns.\<close>

lemma decimateLoop_step_zero:
  assumes "decimateLoop pos nrm step i outPos outNorm = Some y"
  shows "step = 0 \<longrightarrow> \<not> i < count pos"
  using assms
proof (rule decimateLoop.raw_induct
    [where P = "\<lambda>pos nrm step i outPos outNorm y. step = 0 \<longrightarrow> \<not> i < count pos", rotated])
  fix f :: "'b attribute \<Rightarrow> 'b attribute option \<Rightarrow> nat \<Rightarrow> nat \<Rightarrow> 'b list \<Rightarrow> 'b list option \<Rightarrow>
      ('b list \<times> 'b list option) option"
  fix pos nrm step i outPos outNorm y
  assume ih: "\<And>pos nrm step i outPos outNorm y.
      f pos nrm step i outPos outNorm = Some y \<Longrightarrow> step = 0 \<longrightarrow> \<not> i < count pos"
  assume body: "(if i < count pos
      then f pos nrm step (i + step) (outPos @ [getX pos i, getY pos i, getZ pos i])
            (case nrm of None \<Rightarrow> outNorm
             | Some n \<Rightarrow> map_option (\<lambda>out. out @ [getX n i, getY n i, getZ n i]) outNorm)
      else Some (outPos, outNorm)) = Some y"
  show "step = 0 \<longrightarrow> \<not> i < count pos"
  proof (intro impI notI)
    assume "step = 0" and "i < count pos"
    with body have "f pos nrm step (i + step) (outPos @ [getX pos i, getY pos i, getZ pos i])
            (case nrm of None \<Rightarrow> outNorm
             | Some n \<Rightarrow> map_option (\<lambda>out. out @ [getX n i, getY n i, getZ n i]) outNorm) = Some y"
      by simp
    from ih [OF this] \<open>step = 0\<close> \<open>i < count pos\<close> show False by simp
  qed
qed

text \<open>
  With the step 0 and a position attribute that holds at least one item,
  \<^verbatim>\<open>decimateForPoints\<close> does not return.
\<close>

theorem decimation_step_zero:
  assumes "position g = Some pos" and "0 < count pos"
  shows "decimateForPoints g 0 = None"
proof -
  have "decimateLoop pos (normal g) 0 0 []
      (case normal g of None \<Rightarrow> None | Some n \<Rightarrow> Some []) = None"
  proof (rule ccontr)
    assume "decimateLoop pos (normal g) 0 0 []
      (case normal g of None \<Rightarrow> None | Some n \<Rightarrow> Some []) \<noteq> None"
    then obtain y where "decimateLoop pos (normal g) 0 0 []
      (case normal g of None \<Rightarrow> None | Some n \<Rightarrow> Some []) = Some y"
      by blast
    from decimateLoop_step_zero [OF this] assms(2) show False by simp
  qed
  then show ?thesis
    by (simp add: decimateForPoints_def assms(1))
qed

theorem decimation_step_zero_witness:
  "decimateForPoints
     \<lparr> position = Some \<lparr> count = 5, getX = (\<lambda>i. 3 * i), getY = (\<lambda>i. 3 * i + 1),
                          getZ = (\<lambda>i. 3 * i + 2 :: nat) \<rparr>,
       normal = None \<rparr> 0 = None"
proof -
  let ?pos = "\<lparr> count = 5, getX = (\<lambda>i. 3 * i), getY = (\<lambda>i. 3 * i + 1),
                 getZ = (\<lambda>i. 3 * i + 2 :: nat) \<rparr>"
  have pos: "position \<lparr> position = Some ?pos, normal = None \<rparr> = Some ?pos" by simp
  have some: "0 < count ?pos" by simp
  from decimation_step_zero [OF pos some] show ?thesis .
qed

section \<open>The scan phase\<close>

lemma scanState_animateStep [simp]: "scanState (animateStep dt t st) = scanState st"
  by (simp add: animateStep_def Let_def)

lemma lastTime_animateStep [simp]: "lastTime (animateStep dt t st) = lastTime st"
  by (simp add: animateStep_def Let_def)

lemma lastTime_scanStep [simp]: "lastTime (scanStep dt st) = lastTime st"
  by (simp add: scanStep_def Let_def)

text \<open>What a frame does to the scan state.\<close>

lemma scanState_scanStep:
  "scanState (scanStep dt st) =
     (if phase (scanState st) = Scanning then
        (scanState st)
          \<lparr> scanY := scanY (scanState st) + scanSpeed (scanState st) * dt,
            phase := (if maxY (scanState st) < scanY (scanState st) + scanSpeed (scanState st) * dt
                      then Complete else Scanning) \<rparr>
      else scanState st)"
  by (simp add: scanStep_def Let_def)

lemma scanState_render:
  "scanState (render rv now st) =
     (if phase (scanState st) = Scanning then
        (scanState st)
          \<lparr> scanY := scanY (scanState st) + scanSpeed (scanState st) * ((now - lastTime st) / 1000),
            phase := (if maxY (scanState st) <
                         scanY (scanState st) + scanSpeed (scanState st) * ((now - lastTime st) / 1000)
                      then Complete else Scanning) \<rparr>
      else scanState st)"
  by (cases rv) (simp_all add: render_def Let_def scanState_scanStep)

lemma lastTime_render [simp]: "lastTime (render rv now st) = now"
  by (cases rv) (simp_all add: render_def Let_def)

lemma scanState_onMeshLoaded:
  "scanState (onMeshLoaded rv lo hi st) = (scanState st) \<lparr> scanY := lo - 10, maxY := hi + 10 \<rparr>"
  by (cases rv) (simp_all add: onMeshLoaded_def Let_def)

lemma scanState_onLoadFailed:
  "scanState (onLoadFailed rv st) =
     (case rv of WorkerParser \<Rightarrow> scanState st | ObjLoader \<Rightarrow> (scanState st) \<lparr> phase := Complete \<rparr>)"
  by (cases rv) (simp_all add: onLoadFailed_def)

lemma phase_cases: "ph = Scanning \<or> ph = Complete"
  by (cases ph) simp_all

lemma handle_keeps_complete:
  "phase (scanState st) = Complete \<Longrightarrow> phase (scanState (handle rv st ev)) = Complete"
  by (cases ev; cases rv)
    (simp_all add: handle_def scanState_render scanState_onMeshLoaded scanState_onLoadFailed)

lemma run_keeps_complete:
  "phase (scanState st) = Complete \<Longrightarrow> phase (scanState (run rv st evs)) = Complete"
  unfolding run_def by (induction evs arbitrary: st) (simp_all add: handle_keeps_complete)

lemma transitions_complete:
  "phase (scanState st) = Complete \<Longrightarrow> transitions rv st evs = 0"
  by (induction evs arbitrary: st) (simp_all add: handle_keeps_complete)

lemma transitions_le_one: "transitions rv st evs \<le> 1"
proof (induction evs arbitrary: st)
  case Nil
  show ?case by simp
next
  case (Cons ev evs)
  show ?case
  proof (cases "phase (scanState (handle rv st ev)) = Complete")
    case True
    then show ?thesis by (simp add: transitions_complete)
  next
    case False
    then show ?thesis using Cons.IH [of "handle rv st ev"] by simp
  qed
qed

lemma transitions_eq_one:
  "phase (scanState st) = Scanning \<Longrightarrow> phase (scanState (run rv st evs)) = Complete \<Longrightarrow>
   transitions rv st evs = 1"
proof (induction evs arbitrary: st)
  case Nil
  then show ?case by (simp add: run_def)
next
  case (Cons ev evs)
  show ?case
  proof (cases "phase (scanState (handle rv st ev)) = Complete")
    case True
    then show ?thesis using Cons.prems(1) by (simp add: transitions_complete)
  next
    case False
    then have scanning: "phase (scanState (handle rv st ev)) = Scanning"
      using phase_cases by blast
    have "phase (scanState (run rv (handle rv st ev) evs)) = Complete"
      using Cons.prems(2) by (simp add: run_def)
    from Cons.IH [OF scanning this] show ?thesis using False by simp
  qed
qed

text \<open>Where the phase can change.\<close>

lemma transition_cause:
  assumes "phase (scanState st) = Scanning" and "phase (scanState (handle rv st ev)) = Complete"
  shows "(\<exists>now. ev = Frame now \<and>
            maxY (scanState (handle rv st ev)) < scanY (scanState (handle rv st ev))) \<or>
         (rv = ObjLoader \<and> ev = LoadFailed)"
proof (cases ev)
  case (Frame now)
  then show ?thesis
    using assms by (auto simp: handle_def scanState_render split: if_splits)
next
  case (MeshLoaded lo hi)
  then show ?thesis
    using assms by (simp add: handle_def scanState_onMeshLoaded)
next
  case LoadFailed
  then show ?thesis
    using assms by (cases rv) (simp_all add: handle_def scanState_onLoadFailed)
qed

lemma frame_transition:
  assumes "phase (scanState st) = Scanning"
  shows "(phase (scanState (handle rv st (Frame now))) = Complete) =
           (maxY (scanState st) <
              scanY (scanState st) + scanSpeed (scanState st) * ((now - lastTime st) / 1000))"
    and "scanY (scanState (handle rv st (Frame now))) =
           scanY (scanState st) + scanSpeed (scanState st) * ((now - lastTime st) / 1000)"
    and "maxY (scanState (handle rv st (Frame now))) = maxY (scanState st)"
  using assms by (simp_all add: handle_def scanState_render)

text \<open>Frames alone: the sweep accumulates, so a late enough last frame finds the scan complete.\<close>

lemma frames_complete:
  assumes "phase (scanState st) = Scanning" and "nows \<noteq> []"
    and "maxY (scanState st) <
           scanY (scanState st) + scanSpeed (scanState st) * ((last nows - lastTime st) / 1000)"
  shows "phase (scanState (run rv st (map Frame nows))) = Complete"
  using assms
proof (induction nows arbitrary: st)
  case Nil
  then show ?case by simp
next
  case (Cons now nows)
  define st' where "st' = handle rv st (Frame now)"
  have run: "run rv st (map Frame (now # nows)) = run rv st' (map Frame nows)"
    by (simp add: run_def st'_def)
  show ?case
  proof (cases "phase (scanState st') = Complete")
    case True
    then show ?thesis unfolding run by (rule run_keeps_complete)
  next
    case False
    then have scanning: "phase (scanState st') = Scanning"
      using phase_cases by blast
    have not_yet: "\<not> maxY (scanState st) <
        scanY (scanState st) + scanSpeed (scanState st) * ((now - lastTime st) / 1000)"
      using False frame_transition(1) [OF Cons.prems(1), of rv now] by (simp add: st'_def)
    have fields: "scanY (scanState st') =
          scanY (scanState st) + scanSpeed (scanState st) * ((now - lastTime st) / 1000)"
        "maxY (scanState st') = maxY (scanState st)"
        "scanSpeed (scanState st') = scanSpeed (scanState st)"
        "lastTime st' = now"
      using Cons.prems(1) by (simp_all add: st'_def handle_def scanState_render)
    have rest: "nows \<noteq> []"
      using not_yet Cons.prems(3) by (cases nows) simp_all
    have "scanY (scanState st') + scanSpeed (scanState st') * ((last nows - lastTime st') / 1000) =
        scanY (scanState st) + scanSpeed (scanState st) * ((last nows - lastTime st) / 1000)"
      unfolding fields by (simp add: field_simps)
    then have "maxY (scanState st') <
        scanY (scanState st') + scanSpeed (scanState st') * ((last nows - lastTime st') / 1000)"
      using Cons.prems(3) rest by (simp add: fields(2))
    from Cons.IH [OF scanning rest this] show ?thesis unfolding run .
  qed
qed

text \<open>
  Claim C1, as amended. In both revisions the phase of a scene changes from scanning to
  complete at most once in a run of events, and a complete phase stays complete. The
  change happens at a frame, and then the sweep coordinate exceeds \<open>maxY\<close> after that
  frame's advance, or, in the loader revision only, at the loader's error callback. A
  frame rendered while scanning completes the scan exactly when the advanced coordinate
  exceeds \<open>maxY\<close>, so the frame of the change is the first such frame. In a run of frames
  whose last time stamp puts the accumulated sweep beyond \<open>maxY\<close> the change happens
  exactly once.
\<close>

theorem scan_phase_transitions:
  "(phase (scanState st) = Complete \<longrightarrow> phase (scanState (run rv st evs)) = Complete) \<and>
   transitions rv st evs \<le> 1 \<and>
   (phase (scanState st) = Scanning \<and> phase (scanState (handle rv st ev)) = Complete \<longrightarrow>
      (\<exists>now. ev = Frame now \<and>
         maxY (scanState (handle rv st ev)) < scanY (scanState (handle rv st ev))) \<or>
      (rv = ObjLoader \<and> ev = LoadFailed)) \<and>
   (phase (scanState st) = Scanning \<longrightarrow>
      (phase (scanState (handle rv st (Frame now))) = Complete) =
        (maxY (scanState st) <
           scanY (scanState st) + scanSpeed (scanState st) * ((now - lastTime st) / 1000)) \<and>
      scanY (scanState (handle rv st (Frame now))) =
        scanY (scanState st) + scanSpeed (scanState st) * ((now - lastTime st) / 1000) \<and>
      maxY (scanState (handle rv st (Frame now))) = maxY (scanState st)) \<and>
   (phase (scanState st) = Scanning \<and> nows \<noteq> [] \<and>
    maxY (scanState st) <
      scanY (scanState st) + scanSpeed (scanState st) * ((last nows - lastTime st) / 1000) \<longrightarrow>
      phase (scanState (run rv st (map Frame nows))) = Complete \<and>
      transitions rv st (map Frame nows) = 1)"
proof -
  have stays: "phase (scanState st) = Complete \<longrightarrow> phase (scanState (run rv st evs)) = Complete"
    by (simp add: run_keeps_complete)
  have once: "transitions rv st evs \<le> 1"
    by (rule transitions_le_one)
  have cause: "phase (scanState st) = Scanning \<and> phase (scanState (handle rv st ev)) = Complete \<longrightarrow>
      (\<exists>now. ev = Frame now \<and>
         maxY (scanState (handle rv st ev)) < scanY (scanState (handle rv st ev))) \<or>
      (rv = ObjLoader \<and> ev = LoadFailed)"
    using transition_cause [of st rv ev] by blast
  have frame: "phase (scanState st) = Scanning \<longrightarrow>
      (phase (scanState (handle rv st (Frame now))) = Complete) =
        (maxY (scanState st) <
           scanY (scanState st) + scanSpeed (scanState st) * ((now - lastTime st) / 1000)) \<and>
      scanY (scanState (handle rv st (Frame now))) =
        scanY (scanState st) + scanSpeed (scanState st) * ((now - lastTime st) / 1000) \<and>
      maxY (scanState (handle rv st (Frame now))) = maxY (scanState st)"
    using frame_transition [of st rv now] by blast
  have live: "phase (scanState st) = Scanning \<and> nows \<noteq> [] \<and>
    maxY (scanState st) <
      scanY (scanState st) + scanSpeed (scanState st) * ((last nows - lastTime st) / 1000) \<longrightarrow>
      phase (scanState (run rv st (map Frame nows))) = Complete \<and>
      transitions rv st (map Frame nows) = 1"
    using frames_complete [of st nows rv] transitions_eq_one [of st rv "map Frame nows"] by blast
  from stays once cause frame live show ?thesis by (intro conjI)
qed

lemma initBrainScene_scanState:
  "scanState (initBrainScene rv t0) =
     \<lparr> phase = Scanning, scanY = - 120, scanSpeed = 80, maxY = 120 \<rparr>"
  by (simp add: initBrainScene_def SCAN_SPEED_def)

lemma initBrainScene_lastTime: "lastTime (initBrainScene rv t0) = t0"
  by (simp add: initBrainScene_def)

text \<open>
  The claim as stated fails in the loader revision: from the initial scene the loader's
  error callback makes the phase complete, at no frame, while the sweep coordinate is
  \<open>-120\<close> and \<open>maxY\<close> is \<open>120\<close>.
\<close>

theorem scan_phase_counterexample:
  "phase (scanState (initBrainScene ObjLoader 0)) = Scanning \<and>
   phase (scanState (handle ObjLoader (initBrainScene ObjLoader 0) LoadFailed)) = Complete \<and>
   scanY (scanState (handle ObjLoader (initBrainScene ObjLoader 0) LoadFailed)) = - 120 \<and>
   maxY (scanState (handle ObjLoader (initBrainScene ObjLoader 0) LoadFailed)) = 120 \<and>
   transitions ObjLoader (initBrainScene ObjLoader 0) [LoadFailed] = 1"
  by (simp add: handle_def scanState_onLoadFailed initBrainScene_scanState)

text \<open>
  Three frames of the worker revision, the mesh arriving after the first: the scan is
  complete after the third frame, which is the only change, and later events keep it so.
\<close>

theorem scan_phase_transitions_witness:
  "phase (scanState (initBrainScene WorkerParser 0)) = Scanning \<and>
   phase (scanState (handle WorkerParser (initBrainScene WorkerParser 0) (Frame 1000))) = Scanning \<and>
   phase (scanState (handle WorkerParser (initBrainScene WorkerParser 0) (Frame 4000))) = Complete \<and>
   scanY (scanState (handle WorkerParser (initBrainScene WorkerParser 0) (Frame 4000))) = 200 \<and>
   phase (scanState (run WorkerParser (initBrainScene WorkerParser 0)
     (map Frame [1000, 2000, 4000]))) = Complete \<and>
   transitions WorkerParser (initBrainScene WorkerParser 0) (map Frame [1000, 2000, 4000]) = 1 \<and>
   phase (scanState (run WorkerParser
     (handle WorkerParser (initBrainScene WorkerParser 0) (Frame 4000))
     [MeshLoaded (- 80) 90, Frame 5000, LoadFailed])) = Complete \<and>
   transitions WorkerParser (initBrainScene WorkerParser 0)
     [Frame 1000, MeshLoaded (- 80) 90, Frame 2000, Frame 4000, Frame 5000] \<le> 1"
proof -
  let ?s = "initBrainScene WorkerParser 0"
  have start: "phase (scanState ?s) = Scanning"
    by (simp add: initBrainScene_scanState)
  have "phase (scanState (handle WorkerParser ?s (Frame 1000))) \<noteq> Complete"
    using scan_phase_transitions [of ?s WorkerParser "[]" "Frame 1000" 1000 "[]"] start
    by (simp add: initBrainScene_scanState initBrainScene_lastTime)
  then have f1: "phase (scanState (handle WorkerParser ?s (Frame 1000))) = Scanning"
    using phase_cases by blast
  have f4: "phase (scanState (handle WorkerParser ?s (Frame 4000))) = Complete"
      "scanY (scanState (handle WorkerParser ?s (Frame 4000))) = 200"
    using scan_phase_transitions [of ?s WorkerParser "[]" "Frame 4000" 4000 "[]"] start
    by (simp_all add: initBrainScene_scanState initBrainScene_lastTime)
  have run3: "phase (scanState (run WorkerParser ?s (map Frame [1000, 2000, 4000]))) = Complete"
      "transitions WorkerParser ?s (map Frame [1000, 2000, 4000]) = 1"
    using scan_phase_transitions [of ?s WorkerParser "[]" "Frame 0" 0 "[1000, 2000, 4000]"] start
    by (simp_all add: initBrainScene_scanState initBrainScene_lastTime)
  have later: "phase (scanState (run WorkerParser (handle WorkerParser ?s (Frame 4000))
      [MeshLoaded (- 80) 90, Frame 5000, LoadFailed])) = Complete"
    using scan_phase_transitions [of "handle WorkerParser ?s (Frame 4000)" WorkerParser
        "[MeshLoaded (- 80) 90, Frame 5000, LoadFailed]" "Frame 0" 0 "[]"] f4(1)
    by blast
  have most: "transitions WorkerParser ?s
      [Frame 1000, MeshLoaded (- 80) 90, Frame 2000, Frame 4000, Frame 5000] \<le> 1"
    using scan_phase_transitions [of ?s WorkerParser
        "[Frame 1000, MeshLoaded (- 80) 90, Frame 2000, Frame 4000, Frame 5000]" "Frame 0" 0 "[]"]
    by blast
  from start f1 f4 run3 later most show ?thesis by (intro conjI)
qed

text \<open>
  A mesh that arrives when the scan is already complete resets the sweep coordinate to
  \<open>lo - 10\<close>, below the mesh, and no later frame advances it: the phase stays complete.
\<close>

lemma complete_frames_keep_scan:
  "phase (scanState st) = Complete \<Longrightarrow>
   scanState (run rv st (map Frame nows)) = scanState st \<and>
   uScanY (run rv st (map Frame nows)) = uScanY st"
proof (induction nows arbitrary: st)
  case Nil
  then show ?case by (simp add: run_def)
next
  case (Cons now nows)
  have same: "scanState (handle rv st (Frame now)) = scanState st"
      "uScanY (handle rv st (Frame now)) = uScanY st"
    using Cons.prems
    by (cases rv; simp add: handle_def render_def scanStep_def animateStep_def Let_def)+
  then have "phase (scanState (handle rv st (Frame now))) = Complete"
    using Cons.prems by simp
  from Cons.IH [OF this] same show ?case by (simp add: run_def)
qed

theorem late_mesh_not_scanned:
  assumes "phase (scanState st) = Complete"
  shows "phase (scanState (run rv (onMeshLoaded rv lo hi st) (map Frame nows))) = Complete \<and>
         scanY (scanState (run rv (onMeshLoaded rv lo hi st) (map Frame nows))) = lo - 10 \<and>
         uScanY (run rv (onMeshLoaded rv lo hi st) (map Frame nows)) = Some (lo - 10)"
proof -
  have loaded: "phase (scanState (onMeshLoaded rv lo hi st)) = Complete"
      "scanY (scanState (onMeshLoaded rv lo hi st)) = lo - 10"
      "uScanY (onMeshLoaded rv lo hi st) = Some (lo - 10)"
    using assms by (cases rv; simp add: onMeshLoaded_def Let_def)+
  from complete_frames_keep_scan [OF loaded(1), of rv nows] loaded show ?thesis
    by simp
qed

theorem late_mesh_not_scanned_witness:
  "phase (scanState (handle WorkerParser (initBrainScene WorkerParser 0) (Frame 4000))) = Complete \<and>
   uScanY (run WorkerParser
     (onMeshLoaded WorkerParser (- 80) 90
        (handle WorkerParser (initBrainScene WorkerParser 0) (Frame 4000)))
     (map Frame [5000, 60000])) = Some (- 90)"
proof -
  have complete: "phase (scanState (handle WorkerParser (initBrainScene WorkerParser 0) (Frame 4000))) =
      Complete"
    by (simp add: handle_def scanState_render initBrainScene_scanState initBrainScene_lastTime)
  from late_mesh_not_scanned [OF complete, of WorkerParser "- 80" 90 "[5000, 60000]"] complete
  show ?thesis by simp
qed

section \<open>Pathway opacity\<close>

lemma jsRem_range:
  assumes "0 \<le> a" and "0 < b"
  shows "0 \<le> jsRem a b \<and> jsRem a b < b"
proof -
  have q: "0 \<le> a / b" using assms by simp
  have lo: "of_int \<lfloor>a / b\<rfloor> \<le> a / b" by simp
  have hi: "a / b < of_int \<lfloor>a / b\<rfloor> + 1" by linarith
  have whole: "b * (a / b) = a"
    using assms(2) by simp
  have "b * of_int \<lfloor>a / b\<rfloor> \<le> b * (a / b)"
    using lo assms(2) by (intro mult_left_mono) simp_all
  then have "b * of_int \<lfloor>a / b\<rfloor> \<le> a"
    by (simp only: whole)
  moreover have "b * (a / b) < b * (of_int \<lfloor>a / b\<rfloor> + 1)"
    using hi assms(2) by (intro mult_strict_left_mono) simp_all
  then have "a < b * (of_int \<lfloor>a / b\<rfloor> + 1)"
    by (simp only: whole)
  ultimately show ?thesis
    using q by (simp add: jsRem_def algebra_simps)
qed

text \<open>A negative dividend smaller in size than the divisor is its own remainder.\<close>

lemma jsRem_negative:
  assumes "- b < a" and "a < 0" and "0 < b"
  shows "jsRem a b = a"
proof -
  have neg: "a / b < 0"
    using assms(2,3) by (simp add: divide_neg_pos)
  have "- 1 < a / b"
    using assms(1,3) by (simp add: pos_less_divide_eq)
  then have "\<lceil>a / b\<rceil> = 0"
    using neg by (intro ceiling_unique) simp_all
  then show ?thesis
    using neg by (simp add: jsRem_def)
qed

lemma animatePathway_fields [simp]:
  "delay (animatePathway cyc p) = delay p" "duration (animatePathway cyc p) = duration p"
  by (simp_all add: animatePathway_def Let_def)

text \<open>The opacity \<^verbatim>\<open>render\<close> gives a pathway, branch by branch.\<close>

lemma animatePathway_opacity:
  "opacity (animatePathway cyc p) =
     (let pathTime = jsRem (cyc - delay p + cycleDuration) cycleDuration in
      if pathTime < duration p then sin (pathTime / duration p * pi) * 0.7
      else if pathTime < duration p + 0.5 then 0.7 * (1 - (pathTime - duration p) / 0.5)
      else 0)"
  by (simp add: animatePathway_def Let_def)

lemma animatePathway_range:
  assumes "0 \<le> cyc - delay p + cycleDuration" and "0 < duration p"
  shows "opacityInRange (animatePathway cyc p)"
proof -
  define pathTime where "pathTime = jsRem (cyc - delay p + cycleDuration) cycleDuration"
  have nonneg: "0 \<le> pathTime"
    unfolding pathTime_def
    using assms(1) jsRem_range [of "cyc - delay p + cycleDuration" cycleDuration]
    by (simp add: cycleDuration_def)
  consider (fadeIn) "pathTime < duration p"
    | (fadeOut) "\<not> pathTime < duration p" "pathTime < duration p + 0.5"
    | (off) "\<not> pathTime < duration p" "\<not> pathTime < duration p + 0.5"
    by blast
  then show ?thesis
  proof cases
    case fadeIn
    define progress where "progress = pathTime / duration p"
    have "0 \<le> progress" "progress \<le> 1"
      using nonneg fadeIn assms(2) by (simp_all add: progress_def)
    then have "0 \<le> progress * pi" "progress * pi \<le> pi"
      by (simp_all add: mult_left_le_one_le)
    then have "0 \<le> sin (progress * pi)"
      by (rule sin_ge_zero)
    moreover have "sin (progress * pi) \<le> 1"
      by (rule sin_le_one)
    ultimately have "0 \<le> sin (progress * pi) * 0.7 \<and> sin (progress * pi) * 0.7 \<le> 0.7"
      by simp
    then show ?thesis
      using fadeIn
      by (simp add: opacityInRange_def animatePathway_opacity Let_def pathTime_def [symmetric]
          progress_def)
  next
    case fadeOut
    define fadeProgress where "fadeProgress = (pathTime - duration p) / 0.5"
    have "0 \<le> fadeProgress" "fadeProgress \<le> 1"
      using fadeOut by (simp_all add: fadeProgress_def)
    then have "0 \<le> 0.7 * (1 - fadeProgress) \<and> 0.7 * (1 - fadeProgress) \<le> 0.7"
      by simp
    then show ?thesis
      using fadeOut
      by (simp add: opacityInRange_def animatePathway_opacity Let_def pathTime_def [symmetric]
          fadeProgress_def)
  next
    case off
    then show ?thesis
      by (simp add: opacityInRange_def animatePathway_opacity Let_def pathTime_def [symmetric])
  qed
qed

lemma animatePathway_ok:
  assumes "cycleOk cyc" and "pathwayOk p"
  shows "pathwayOk (animatePathway cyc p)"
proof -
  have "0 \<le> cyc - delay p + cycleDuration"
    using assms by (simp add: cycleOk_def pathwayOk_def cycleDuration_def)
  then show ?thesis
    using assms(2) by (simp add: pathwayOk_def animatePathway_range)
qed

lemma animate_all_ok:
  "cycleOk cyc \<Longrightarrow> list_all pathwayOk ps \<Longrightarrow> list_all pathwayOk (map (animatePathway cyc) ps)"
  by (induction ps) (simp_all add: animatePathway_ok)

text \<open>Advanced from \<open>-4.8\<close> or above, the cycle clock does not fall below \<open>-4.8\<close>.\<close>

lemma cycle_advance:
  assumes "cycleOk x"
  shows "cycleOk (jsRem x cycleDuration)"
proof (cases "0 \<le> x")
  case True
  then show ?thesis
    using jsRem_range [of x cycleDuration] by (simp add: cycleOk_def cycleDuration_def)
next
  case False
  then have "jsRem x cycleDuration = x"
    using assms by (intro jsRem_negative) (simp_all add: cycleOk_def cycleDuration_def)
  then show ?thesis
    using assms by simp
qed

lemma cycleOk_later:
  assumes "cycleOk cyc" and "t \<le> now"
  shows "cycleOk (cyc + (now - t) / 1000)"
proof -
  have "0 \<le> (now - t) / 1000"
    using assms(2) by simp
  with assms(1) show ?thesis
    unfolding cycleOk_def by linarith
qed

lemma initial_pathways_ok:
  "list_all pathwayOk (map (\<lambda>idx. \<lparr> delay = real idx * 0.4, duration = 1.5, opacity = 0 \<rparr>) [0 ..< 9])"
  by (simp add: upt_conv_Cons pathwayOk_def opacityInRange_def)

lemma pathways_scanStep [simp]: "pathways (scanStep dt st) = pathways st"
  by (simp add: scanStep_def Let_def)

lemma cycleTime_scanStep [simp]: "cycleTime (scanStep dt st) = cycleTime st"
  by (simp add: scanStep_def Let_def)

lemma animateStep_ok:
  assumes "cycleOk (cycleTime st)" and "list_all pathwayOk (pathways st)"
    and "cycleOk (cycleTime st + dt)"
  shows "cycleOk (cycleTime (animateStep dt t st)) \<and>
         list_all pathwayOk (pathways (animateStep dt t st))"
  using assms by (simp add: animateStep_def Let_def cycle_advance animate_all_ok)

lemma render_ok:
  assumes "cycleOk (cycleTime st)" and "list_all pathwayOk (pathways st)"
    and "cycleOk (cycleTime st + (now - lastTime st) / 1000)"
  shows "cycleOk (cycleTime (render rv now st)) \<and> list_all pathwayOk (pathways (render rv now st))"
  unfolding render_def Let_def
  by (cases rv; simp; intro animateStep_ok; simp add: assms)

lemma handle_ok:
  assumes "cycleOk (cycleTime st)" and "list_all pathwayOk (pathways st)"
    and "monotonic (lastTime st) (ev # evs)"
  shows "cycleOk (cycleTime (handle rv st ev)) \<and> list_all pathwayOk (pathways (handle rv st ev)) \<and>
         monotonic (lastTime (handle rv st ev)) evs"
proof (cases ev)
  case (Frame now)
  then have "cycleOk (cycleTime st + (now - lastTime st) / 1000)"
    using assms(1,3) by (intro cycleOk_later) simp_all
  then show ?thesis
    using Frame assms render_ok [of st now rv] by (simp add: handle_def)
next
  case (MeshLoaded lo hi)
  then show ?thesis
    using assms by (cases rv) (simp_all add: handle_def onMeshLoaded_def Let_def)
next
  case LoadFailed
  then show ?thesis
    using assms by (cases rv) (simp_all add: handle_def onLoadFailed_def)
qed

lemma run_ok:
  assumes "cycleOk (cycleTime st)" and "list_all pathwayOk (pathways st)"
    and "monotonic (lastTime st) evs"
  shows "list_all pathwayOk (pathways (run rv st evs))"
  using assms
proof (induction evs arbitrary: st)
  case Nil
  then show ?case by (simp add: run_def)
next
  case (Cons ev evs)
  from handle_ok [OF Cons.prems, of rv]
  have "list_all pathwayOk (pathways (run rv (handle rv st ev) evs))"
    by (intro Cons.IH) simp_all
  then show ?case by (simp add: run_def)
qed

text \<open>Until the first frame the cycle clock stands at 0 and \<^verbatim>\<open>lastTime\<close> is unchanged.\<close>

lemma run_clock_ok:
  assumes "cycleTime st = 0" and "list_all pathwayOk (pathways st)"
    and "clock (lastTime st) evs"
  shows "list_all pathwayOk (pathways (run rv st evs))"
  using assms
proof (induction evs arbitrary: st)
  case Nil
  then show ?case by (simp add: run_def)
next
  case (Cons ev evs)
  show ?case
  proof (cases ev)
    case (Frame now)
    have first: "lastTime st - 4800 \<le> now" and rest: "monotonic now evs"
      using Cons.prems(3) Frame by simp_all
    have "cycleOk (cycleTime st + (now - lastTime st) / 1000)"
      using first Cons.prems(1) by (simp add: cycleOk_def)
    moreover have "cycleOk (cycleTime st)"
      using Cons.prems(1) by (simp add: cycleOk_def)
    ultimately
    have "cycleOk (cycleTime (render rv now st)) \<and> list_all pathwayOk (pathways (render rv now st))"
      using Cons.prems(2) by (intro render_ok)
    then have "list_all pathwayOk (pathways (run rv (render rv now st) evs))"
      using rest by (intro run_ok) simp_all
    then show ?thesis
      using Frame by (simp add: run_def handle_def)
  next
    case (MeshLoaded lo hi)
    have "list_all pathwayOk (pathways (run rv (onMeshLoaded rv lo hi st) evs))"
      using Cons.prems MeshLoaded
      by (intro Cons.IH; cases rv) (simp_all add: onMeshLoaded_def Let_def)
    then show ?thesis
      using MeshLoaded by (simp add: run_def handle_def)
  next
    case LoadFailed
    have "list_all pathwayOk (pathways (run rv (onLoadFailed rv st) evs))"
      using Cons.prems LoadFailed
      by (intro Cons.IH; cases rv) (simp_all add: onLoadFailed_def)
    then show ?thesis
      using LoadFailed by (simp add: run_def handle_def)
  qed
qed

lemma renderThinking_ok:
  assumes "list_all pathwayOk (pathways0 st)"
    and "cycleOk (cycleTime0 st + (now - lastTime0 st) / 1000)"
  shows "cycleOk (cycleTime0 (renderThinking st now)) \<and>
         list_all pathwayOk (pathways0 (renderThinking st now)) \<and>
         lastTime0 (renderThinking st now) = now"
  using assms by (simp add: renderThinking_def Let_def cycle_advance animate_all_ok)

lemma thinking_run_ok:
  assumes "cycleOk (cycleTime0 st)" and "list_all pathwayOk (pathways0 st)"
    and "monotonic (lastTime0 st) (map Frame nows)"
  shows "list_all pathwayOk (pathways0 (foldl renderThinking st nows))"
  using assms
proof (induction nows arbitrary: st)
  case Nil
  then show ?case by simp
next
  case (Cons now nows)
  have le: "lastTime0 st \<le> now" and rest: "monotonic now (map Frame nows)"
    using Cons.prems(3) by simp_all
  have "cycleOk (cycleTime0 st + (now - lastTime0 st) / 1000)"
    using le Cons.prems(1) by (intro cycleOk_later)
  from renderThinking_ok [OF Cons.prems(2) this] rest
  have "list_all pathwayOk (pathways0 (foldl renderThinking (renderThinking st now) nows))"
    by (intro Cons.IH) simp_all
  then show ?case by simp
qed

lemma thinking_clock_ok:
  assumes "cycleTime0 st = 0" and "list_all pathwayOk (pathways0 st)"
    and "clock (lastTime0 st) (map Frame nows)"
  shows "list_all pathwayOk (pathways0 (foldl renderThinking st nows))"
proof (cases nows)
  case Nil
  then show ?thesis using assms(2) by simp
next
  case (Cons now rest)
  have first: "lastTime0 st - 4800 \<le> now" and mono: "monotonic now (map Frame rest)"
    using assms(3) Cons by simp_all
  have "cycleOk (cycleTime0 st + (now - lastTime0 st) / 1000)"
    using first assms(1) by (simp add: cycleOk_def)
  from renderThinking_ok [OF assms(2) this] mono
  have "list_all pathwayOk (pathways0 (foldl renderThinking (renderThinking st now) rest))"
    by (intro thinking_run_ok) simp_all
  then show ?thesis using Cons by simp
qed

lemma ok_in_range: "list_all pathwayOk ps \<Longrightarrow> list_all opacityInRange ps"
  by (induction ps) (simp_all add: pathwayOk_def)

text \<open>Time stamps that never decrease from \<open>t0\<close> on are time stamps of the frame clock.\<close>

lemma monotonic_clock: "monotonic t0 evs \<Longrightarrow> clock t0 evs"
  by (induction t0 evs rule: clock.induct) simp_all

text \<open>
  Claim C10. Every pathway line's opacity is 0 when the scene is created, and it lies
  between 0 and 0.7 after every frame and every other event of a run, in both revisions
  with a scan and in the revision without one, whenever the frames' time stamps are those
  of the frame clock: they never decrease, and the first is not more than 4.8 seconds
  before the time read at creation (it may be earlier than that time). A frame of the
  revision without a scan, and a frame of a complete scan, first advances the cycle clock
  by the time since the last frame, modulo the cycle, and then sets each line's opacity
  from that clock: to \<open>sin (progress * pi) * 0.7\<close> while the line fades in, to
  \<open>0.7 * (1 - fadeProgress)\<close> while it fades out, and to 0 otherwise. Frames of a scan
  that is not complete, and the other events, leave the opacities as they are.
\<close>

theorem pathway_opacity_range:
  assumes "clock t0 evs" and "clock t0 (map Frame nows)"
  shows "list_all (\<lambda>p. opacity p = 0) (pathways (initBrainScene rv t0)) \<and>
         list_all opacityInRange (pathways (run rv (initBrainScene rv t0) evs)) \<and>
         list_all (\<lambda>p. opacity p = 0) (pathways0 (initThinking t0)) \<and>
         list_all opacityInRange (pathways0 (foldl renderThinking (initThinking t0) nows)) \<and>
         opacity (animatePathway cyc p) =
           (let pathTime = jsRem (cyc - delay p + cycleDuration) cycleDuration in
            if pathTime < duration p then sin (pathTime / duration p * pi) * 0.7
            else if pathTime < duration p + 0.5 then 0.7 * (1 - (pathTime - duration p) / 0.5)
            else 0) \<and>
         pathways0 (renderThinking th now) =
           map (animatePathway (cycleTime0 (renderThinking th now))) (pathways0 th) \<and>
         cycleTime0 (renderThinking th now) =
           jsRem (cycleTime0 th + (now - lastTime0 th) / 1000) cycleDuration \<and>
         lastTime0 (renderThinking th now) = now \<and>
         pathways (handle rv st (Frame now)) =
           (if phase (scanState (handle rv st (Frame now))) = Complete
            then map (animatePathway (cycleTime (handle rv st (Frame now)))) (pathways st)
            else pathways st) \<and>
         cycleTime (handle rv st (Frame now)) =
           (if phase (scanState (handle rv st (Frame now))) = Complete
            then jsRem (cycleTime st + (now - lastTime st) / 1000) cycleDuration
            else cycleTime st) \<and>
         lastTime (handle rv st (Frame now)) = now \<and>
         pathways (handle rv st (MeshLoaded lo hi)) = pathways st \<and>
         pathways (handle rv st LoadFailed) = pathways st"
proof -
  have zero: "list_all (\<lambda>p. opacity p = 0) (pathways (initBrainScene rv t0))"
    by (simp add: initBrainScene_def upt_conv_Cons)
  have zero0: "list_all (\<lambda>p. opacity p = 0) (pathways0 (initThinking t0))"
    by (simp add: initThinking_def upt_conv_Cons)
  have "list_all pathwayOk (pathways (run rv (initBrainScene rv t0) evs))"
    using assms(1) initial_pathways_ok by (intro run_clock_ok) (simp_all add: initBrainScene_def)
  then have range: "list_all opacityInRange (pathways (run rv (initBrainScene rv t0) evs))"
    by (rule ok_in_range)
  have "list_all pathwayOk (pathways0 (foldl renderThinking (initThinking t0) nows))"
    using assms(2) initial_pathways_ok by (intro thinking_clock_ok) (simp_all add: initThinking_def)
  then have range0: "list_all opacityInRange (pathways0 (foldl renderThinking (initThinking t0) nows))"
    by (rule ok_in_range)
  have thinking: "pathways0 (renderThinking th now) =
        map (animatePathway (cycleTime0 (renderThinking th now))) (pathways0 th)"
      "cycleTime0 (renderThinking th now) =
        jsRem (cycleTime0 th + (now - lastTime0 th) / 1000) cycleDuration"
      "lastTime0 (renderThinking th now) = now"
    by (simp_all add: renderThinking_def Let_def)
  have frame: "pathways (handle rv st (Frame now)) =
      (if phase (scanState (handle rv st (Frame now))) = Complete
       then map (animatePathway (cycleTime (handle rv st (Frame now)))) (pathways st)
       else pathways st)"
    by (cases rv) (simp_all add: handle_def render_def animateStep_def Let_def)
  have cycle: "cycleTime (handle rv st (Frame now)) =
      (if phase (scanState (handle rv st (Frame now))) = Complete
       then jsRem (cycleTime st + (now - lastTime st) / 1000) cycleDuration
       else cycleTime st)"
    by (cases rv) (simp_all add: handle_def render_def animateStep_def Let_def)
  have last: "lastTime (handle rv st (Frame now)) = now"
    by (simp add: handle_def)
  have others: "pathways (handle rv st (MeshLoaded lo hi)) = pathways st"
      "pathways (handle rv st LoadFailed) = pathways st"
    by (cases rv; simp add: handle_def onMeshLoaded_def onLoadFailed_def Let_def)+
  from zero range zero0 range0 animatePathway_opacity [of cyc p] thinking frame cycle last others
  show ?thesis by (intro conjI)
qed

text \<open>
  Scenes created at time 0 whose first frame is stamped 10 milliseconds before that. In
  the worker revision the scan completes at the second frame, 4 seconds after creation,
  and the third frame takes the cycle clock round to 3.95 seconds, where the first line is
  off, the sixth is fading out and the last is at its peak. In the loader revision after
  a failed load the scan is complete at once, and the first frame takes the cycle clock
  below 0. In the revision without a scan the cycle clock is below 0 after the first frame
  and stands at 1.95 seconds after a second frame at 1950, where the first line is fading
  out, the fourth is at its peak and the last is off.
\<close>

theorem pathway_opacity_range_witness:
  "clock 0 [Frame (- 10), Frame 3990, Frame 11940] \<and>
   \<not> monotonic 0 [Frame (- 10), Frame 3990, Frame 11940] \<and>
   clock 0 [LoadFailed, Frame (- 10)] \<and>
   clock 0 (map Frame [- 10, 1950]) \<and>
   phase (scanState (run WorkerParser (initBrainScene WorkerParser 0)
     [Frame (- 10), Frame 3990, Frame 11940])) = Complete \<and>
   cycleTime (run WorkerParser (initBrainScene WorkerParser 0)
     [Frame (- 10), Frame 3990, Frame 11940]) = 79 / 20 \<and>
   list_all opacityInRange (pathways (run WorkerParser (initBrainScene WorkerParser 0)
     [Frame (- 10), Frame 3990, Frame 11940])) \<and>
   opacity (hd (pathways (run WorkerParser (initBrainScene WorkerParser 0)
     [Frame (- 10), Frame 3990, Frame 11940]))) = 0 \<and>
   opacity (pathways (run WorkerParser (initBrainScene WorkerParser 0)
     [Frame (- 10), Frame 3990, Frame 11940]) ! 5) = 7 / 100 \<and>
   opacity (last (pathways (run WorkerParser (initBrainScene WorkerParser 0)
     [Frame (- 10), Frame 3990, Frame 11940]))) = 7 / 10 \<and>
   cycleTime (run ObjLoader (initBrainScene ObjLoader 0) [LoadFailed, Frame (- 10)]) = - (1 / 100) \<and>
   list_all opacityInRange
     (pathways (run ObjLoader (initBrainScene ObjLoader 0) [LoadFailed, Frame (- 10)])) \<and>
   cycleTime0 (foldl renderThinking (initThinking 0) [- 10]) = - (1 / 100) \<and>
   cycleTime0 (foldl renderThinking (initThinking 0) [- 10, 1950]) = 39 / 20 \<and>
   list_all opacityInRange (pathways0 (foldl renderThinking (initThinking 0) [- 10, 1950])) \<and>
   opacity (hd (pathways0 (foldl renderThinking (initThinking 0) [- 10, 1950]))) = 7 / 100 \<and>
   opacity (pathways0 (foldl renderThinking (initThinking 0) [- 10, 1950]) ! 3) = 7 / 10 \<and>
   opacity (last (pathways0 (foldl renderThinking (initThinking 0) [- 10, 1950]))) = 0"
proof -
  have clocks: "clock 0 [Frame (- 10), Frame 3990, Frame 11940]"
      "clock 0 [LoadFailed, Frame (- 10)]" "clock 0 (map Frame [- 10, 1950])"
    and earlier: "\<not> monotonic 0 [Frame (- 10), Frame 3990, Frame 11940]"
    by simp_all
  note worker = pathway_opacity_range [OF clocks(1) clocks(3), where rv = WorkerParser]
  note loader = pathway_opacity_range [OF clocks(2) clocks(3), where rv = ObjLoader]
  have early: "jsRem (- (1 / 100)) 8 = - (1 / 100)"
    by (intro jsRem_negative) simp_all

  define th0 where "th0 = initThinking 0"
  define th1 where "th1 = renderThinking th0 (- 10)"
  define th2 where "th2 = renderThinking th1 1950"
  have run1: "foldl renderThinking (initThinking 0) [- 10] = th1"
    and run2: "foldl renderThinking (initThinking 0) [- 10, 1950] = th2"
    by (simp_all add: th0_def th1_def th2_def)
  have frame0: "pathways0 (renderThinking th now) =
        map (animatePathway (cycleTime0 (renderThinking th now))) (pathways0 th)"
      "cycleTime0 (renderThinking th now) =
        jsRem (cycleTime0 th + (now - lastTime0 th) / 1000) cycleDuration"
      "lastTime0 (renderThinking th now) = now" for th now
    using worker [where th = th and now = now] by simp_all
  have i0: "lastTime0 th0 = 0" "cycleTime0 th0 = 0"
      "pathways0 th0 = map (\<lambda>idx. \<lparr> delay = real idx * 0.4, duration = 1.5, opacity = 0 \<rparr>) [0 ..< 9]"
    by (simp_all add: th0_def initThinking_def)
  have i1: "lastTime0 th1 = - 10" "cycleTime0 th1 = - (1 / 100)"
    unfolding th1_def frame0 by (simp_all add: i0 early cycleDuration_def)
  have p1: "pathways0 th1 = map (animatePathway (- (1 / 100))) (pathways0 th0)"
    unfolding th1_def frame0(1) unfolding th1_def [symmetric] i1 ..
  have i2: "cycleTime0 th2 = 39 / 20"
    unfolding th2_def frame0 by (simp add: i1 jsRem_def cycleDuration_def)
  have p2: "pathways0 th2 = map (animatePathway (39 / 20)) (pathways0 th1)"
    unfolding th2_def frame0(1) unfolding th2_def [symmetric] i2 ..
  have o1: "opacity (hd (pathways0 th2)) = 7 / 100"
    unfolding p2 p1 i0
    by (simp add: upt_conv_Cons animatePathway_opacity Let_def jsRem_def cycleDuration_def)
  have o2: "opacity (pathways0 th2 ! 3) = 7 / 10"
    unfolding p2 p1 i0
    by (simp add: upt_conv_Cons animatePathway_opacity Let_def jsRem_def cycleDuration_def)
  have o3: "opacity (last (pathways0 th2)) = 0"
    unfolding p2 p1 i0
    by (simp add: upt_conv_Cons animatePathway_opacity Let_def jsRem_def cycleDuration_def)
  have range0: "list_all opacityInRange (pathways0 th2)"
    using worker unfolding run2 by simp
  have thinking: "cycleTime0 th1 = - (1 / 100) \<and> cycleTime0 th2 = 39 / 20 \<and>
      list_all opacityInRange (pathways0 th2) \<and> opacity (hd (pathways0 th2)) = 7 / 100 \<and>
      opacity (pathways0 th2 ! 3) = 7 / 10 \<and> opacity (last (pathways0 th2)) = 0"
    using i1(2) i2 range0 o1 o2 o3 by (intro conjI)

  define w0 where "w0 = initBrainScene WorkerParser 0"
  define w1 where "w1 = handle WorkerParser w0 (Frame (- 10))"
  define w2 where "w2 = handle WorkerParser w1 (Frame 3990)"
  define w3 where "w3 = handle WorkerParser w2 (Frame 11940)"
  have runW: "run WorkerParser (initBrainScene WorkerParser 0)
      [Frame (- 10), Frame 3990, Frame 11940] = w3"
    by (simp add: run_def w0_def w1_def w2_def w3_def)
  have frame: "pathways (handle WorkerParser st (Frame now)) =
        (if phase (scanState (handle WorkerParser st (Frame now))) = Complete
         then map (animatePathway (cycleTime (handle WorkerParser st (Frame now)))) (pathways st)
         else pathways st)"
      "cycleTime (handle WorkerParser st (Frame now)) =
        (if phase (scanState (handle WorkerParser st (Frame now))) = Complete
         then jsRem (cycleTime st + (now - lastTime st) / 1000) cycleDuration
         else cycleTime st)"
      "lastTime (handle WorkerParser st (Frame now)) = now" for st now
    using worker [where st = st and now = now] by simp_all
  have a0: "scanState w0 = \<lparr> phase = Scanning, scanY = - 120, scanSpeed = 80, maxY = 120 \<rparr>"
      "lastTime w0 = 0" "cycleTime w0 = 0"
      "pathways w0 = map (\<lambda>idx. \<lparr> delay = real idx * 0.4, duration = 1.5, opacity = 0 \<rparr>) [0 ..< 9]"
    by (simp_all add: w0_def initBrainScene_scanState initBrainScene_lastTime)
      (simp_all add: initBrainScene_def)
  have s1: "scanState w1 = \<lparr> phase = Scanning, scanY = - (604 / 5), scanSpeed = 80, maxY = 120 \<rparr>"
    unfolding w1_def by (simp add: handle_def scanState_render a0)
  have a1: "lastTime w1 = - 10" "cycleTime w1 = 0" "pathways w1 = pathways w0"
    using frame [of w0 "- 10"] s1 a0(3) unfolding w1_def [symmetric] by simp_all
  have s2: "scanState w2 = \<lparr> phase = Complete, scanY = 996 / 5, scanSpeed = 80, maxY = 120 \<rparr>"
    unfolding w2_def by (simp add: handle_def scanState_render s1 a1)
  have a2: "lastTime w2 = 3990" "cycleTime w2 = 4"
    using frame(2,3) [of w1 3990] s2 a1(1,2) unfolding w2_def [symmetric]
    by (simp_all add: jsRem_def cycleDuration_def)
  have p2w: "pathways w2 = map (animatePathway 4) (pathways w0)"
    using frame(1) [of w1 3990] s2 a2(2) a1(3) unfolding w2_def [symmetric] by simp
  have s3: "scanState w3 = \<lparr> phase = Complete, scanY = 996 / 5, scanSpeed = 80, maxY = 120 \<rparr>"
    unfolding w3_def by (simp add: handle_def scanState_render s2)
  have a3: "cycleTime w3 = 79 / 20"
    using frame(2) [of w2 11940] s3 a2 unfolding w3_def [symmetric]
    by (simp add: jsRem_def cycleDuration_def)
  have p3w: "pathways w3 = map (animatePathway (79 / 20)) (pathways w2)"
    using frame(1) [of w2 11940] s3 a3 unfolding w3_def [symmetric] by simp
  have q1: "opacity (hd (pathways w3)) = 0"
    unfolding p3w p2w a0
    by (simp add: upt_conv_Cons animatePathway_opacity Let_def jsRem_def cycleDuration_def)
  have q2: "opacity (pathways w3 ! 5) = 7 / 100"
    unfolding p3w p2w a0
    by (simp add: upt_conv_Cons animatePathway_opacity Let_def jsRem_def cycleDuration_def)
  have q3: "opacity (last (pathways w3)) = 7 / 10"
    unfolding p3w p2w a0
    by (simp add: upt_conv_Cons animatePathway_opacity Let_def jsRem_def cycleDuration_def)
  have rangeW: "list_all opacityInRange (pathways w3)"
    using worker unfolding runW by simp
  have scan: "phase (scanState w3) = Complete \<and> cycleTime w3 = 79 / 20 \<and>
      list_all opacityInRange (pathways w3) \<and> opacity (hd (pathways w3)) = 0 \<and>
      opacity (pathways w3 ! 5) = 7 / 100 \<and> opacity (last (pathways w3)) = 7 / 10"
    using s3 a3 rangeW q1 q2 q3 by simp

  define l0 where "l0 = initBrainScene ObjLoader 0"
  define l1 where "l1 = handle ObjLoader l0 LoadFailed"
  define l2 where "l2 = handle ObjLoader l1 (Frame (- 10))"
  have runL: "run ObjLoader (initBrainScene ObjLoader 0) [LoadFailed, Frame (- 10)] = l2"
    by (simp add: run_def l0_def l1_def l2_def)
  have b1: "phase (scanState l1) = Complete" "lastTime l1 = 0" "cycleTime l1 = 0"
    by (simp_all add: l1_def l0_def handle_def onLoadFailed_def initBrainScene_def)
  have b2: "phase (scanState l2) = Complete"
    unfolding l2_def by (simp add: handle_def scanState_render b1)
  have c2: "cycleTime l2 = - (1 / 100)"
    using loader [where st = l1 and now = "- 10"] b2 b1 unfolding l2_def [symmetric]
    by (simp add: early cycleDuration_def)
  have rangeL: "list_all opacityInRange (pathways l2)"
    using loader unfolding runL by simp
  from clocks earlier scan c2 rangeL thinking show ?thesis
    unfolding runW runL run1 run2 by (intro conjI) simp_all
qed

text \<open>
  The bound on the first time stamp is needed. A first frame stamped 5.55 seconds before
  the scene was created, which no frame clock gives, would take the cycle clock of the
  revision without a scan to \<open>-5.55\<close> and the last line's opacity to \<open>-0.7\<close>.
\<close>

lemma first_frame_bound:
  "\<not> clock 0 (map Frame [- 5550]) \<and>
   cycleTime0 (foldl renderThinking (initThinking 0) [- 5550]) = - (111 / 20) \<and>
   opacity (last (pathways0 (foldl renderThinking (initThinking 0) [- 5550]))) = - (7 / 10)"
proof -
  have cyc: "jsRem (- (111 / 20)) 8 = - (111 / 20)" and path: "jsRem (- (3 / 4)) 8 = - (3 / 4)"
    by (intro jsRem_negative; simp)+
  have half: "sin (- (pi / 2)) = - 1"
    by (simp only: sin_minus sin_pi_half)
  have "cycleTime0 (foldl renderThinking (initThinking 0) [- 5550]) = - (111 / 20)"
    by (simp add: renderThinking_def initThinking_def Let_def cyc cycleDuration_def)
  moreover have "opacity (last (pathways0 (foldl renderThinking (initThinking 0) [- 5550]))) = - (7 / 10)"
    by (simp add: renderThinking_def initThinking_def Let_def cyc cycleDuration_def upt_conv_Cons
        animatePathway_opacity path half)
  ultimately show ?thesis by simp
qed

section \<open>Scroll effects\<close>

lemma vh_pos: "0 < vh w"
  by (simp add: vh_def)

lemma distance_nonneg: "0 \<le> distance w"
  by (simp add: distance_def)

lemma normalized_range: "0 \<le> normalized w \<and> normalized w \<le> 1"
  using vh_pos [of w] distance_nonneg [of w] by (simp add: normalized_def)

lemma normalized_zero_iff: "normalized w = 0 \<longleftrightarrow> distance w = 0"
proof -
  have "distance w / (vh w / 2) = 0 \<longleftrightarrow> distance w = 0"
    using vh_pos [of w] by simp
  moreover have "normalized w = 0 \<longleftrightarrow> distance w / (vh w / 2) = 0"
    unfolding normalized_def min_def by (cases "distance w / (vh w / 2) \<le> 1") auto
  ultimately show ?thesis by simp
qed

lemma normalized_one_iff: "normalized w = 1 \<longleftrightarrow> vh w / 2 \<le> distance w"
proof -
  have "1 \<le> distance w / (vh w / 2) \<longleftrightarrow> vh w / 2 \<le> distance w"
    using vh_pos [of w] by (simp add: pos_le_divide_eq)
  moreover have "normalized w = 1 \<longleftrightarrow> 1 \<le> distance w / (vh w / 2)"
    unfolding normalized_def min_def by (cases "distance w / (vh w / 2) \<le> 1") auto
  ultimately show ?thesis by simp
qed

text \<open>
  Claim C9. Let \<open>c\<close> be the vertical centre of the hero's rectangle, its top plus half its
  height, let \<open>h\<close> be the viewport height (\<^verbatim>\<open>window.innerHeight\<close>, or 1 when that is 0), and
  let \<open>d\<close> be the distance of \<open>c\<close> from the viewport's centre \<open>h / 2\<close>. The intensity that
  \<^verbatim>\<open>handleScroll\<close> computes from the rectangle and the viewport is \<open>1 - min (d / (h / 2)) 1\<close>:
  it is 1 exactly when \<open>c\<close> is at the viewport's centre (\<open>d = 0\<close>), it is 0 exactly when
  \<open>d\<close> is at least half the viewport height, and it always lies between 0 and 1. It is the
  intensity written to the visual's style.
\<close>

theorem scroll_intensity:
  "let h = (if innerHeight w = 0 then 1 else real (innerHeight w));
       c = rectTop w + rectHeight w / 2;
       d = \<bar>c - h / 2\<bar>
   in intensity w = 1 - min (d / (h / 2)) 1 \<and>
      (intensity w = 1 \<longleftrightarrow> c = h / 2) \<and>
      (intensity w = 1 \<longleftrightarrow> d = 0) \<and>
      (intensity w = 0 \<longleftrightarrow> h / 2 \<le> d) \<and>
      0 \<le> intensity w \<and> intensity w \<le> 1 \<and>
      vh w = h \<and> center w = c \<and> distance w = d \<and>
      (intensity w = 1 \<longleftrightarrow> distance w = 0) \<and>
      (distance w = 0 \<longleftrightarrow> center w = vh w / 2) \<and>
      (intensity w = 0 \<longleftrightarrow> vh w / 2 \<le> distance w) \<and>
      transformScale (handleScroll w) = 1 + intensity w * 0.03 \<and>
      styleOpacity (handleScroll w) = 0.8 + intensity w * 0.2 \<and>
      pulseClass (handleScroll w) = (intensity w > 0.4)"
proof -
  define h where "h = (if innerHeight w = 0 then 1 else real (innerHeight w))"
  define c where "c = rectTop w + rectHeight w / 2"
  define d where "d = \<bar>c - h / 2\<bar>"
  have fields: "vh w = h" "center w = c" "distance w = d"
    by (simp_all add: vh_def center_def distance_def h_def c_def d_def)
  have formula: "intensity w = 1 - min (d / (h / 2)) 1"
    by (simp add: intensity_def normalized_def fields)
  have one: "intensity w = 1 \<longleftrightarrow> distance w = 0"
    using normalized_zero_iff [of w] by (simp add: intensity_def)
  have centred: "distance w = 0 \<longleftrightarrow> center w = vh w / 2"
    by (simp add: distance_def)
  have zero: "intensity w = 0 \<longleftrightarrow> vh w / 2 \<le> distance w"
    using normalized_one_iff [of w] by (auto simp: intensity_def)
  have range: "0 \<le> intensity w" "intensity w \<le> 1"
    using normalized_range [of w] by (simp_all add: intensity_def)
  have style: "transformScale (handleScroll w) = 1 + intensity w * 0.03"
    "styleOpacity (handleScroll w) = 0.8 + intensity w * 0.2"
    "pulseClass (handleScroll w) = (intensity w > 0.4)"
    by (simp_all add: handleScroll_def)
  have "intensity w = 1 \<longleftrightarrow> c = h / 2" "intensity w = 1 \<longleftrightarrow> d = 0" "intensity w = 0 \<longleftrightarrow> h / 2 \<le> d"
    using one centred zero by (simp_all add: fields)
  with formula range fields one centred zero style show ?thesis
    unfolding Let_def h_def [symmetric] c_def [symmetric] d_def [symmetric]
    by (intro conjI)
qed

text \<open>
  A viewport 800 pixels high and a hero 600 pixels high: centred when its top is at 100,
  half a viewport off when its top is at 500, beyond that at 1000, a quarter of the way
  off at 200; and a viewport of height 0, which counts as 1.
\<close>

theorem scroll_intensity_witness:
  "intensity \<lparr> rectTop = 100, rectHeight = 600, innerHeight = 800 \<rparr> = 1 \<and>
   intensity \<lparr> rectTop = 500, rectHeight = 600, innerHeight = 800 \<rparr> = 0 \<and>
   intensity \<lparr> rectTop = 1000, rectHeight = 600, innerHeight = 800 \<rparr> = 0 \<and>
   intensity \<lparr> rectTop = 200, rectHeight = 600, innerHeight = 800 \<rparr> = 3 / 4 \<and>
   intensity \<lparr> rectTop = - 700, rectHeight = 600, innerHeight = 800 \<rparr> = 0 \<and>
   intensity \<lparr> rectTop = 0, rectHeight = 1, innerHeight = 0 \<rparr> = 1 \<and>
   pulseClass (handleScroll \<lparr> rectTop = 200, rectHeight = 600, innerHeight = 800 \<rparr>) \<and>
   \<not> pulseClass (handleScroll \<lparr> rectTop = 500, rectHeight = 600, innerHeight = 800 \<rparr>)"
proof -
  have a: "intensity \<lparr> rectTop = 100, rectHeight = 600, innerHeight = 800 \<rparr> = 1"
    using scroll_intensity [of "\<lparr> rectTop = 100, rectHeight = 600, innerHeight = 800 \<rparr>"]
    by (simp add: Let_def)
  have b: "intensity \<lparr> rectTop = 500, rectHeight = 600, innerHeight = 800 \<rparr> = 0"
    using scroll_intensity [of "\<lparr> rectTop = 500, rectHeight = 600, innerHeight = 800 \<rparr>"]
    by (simp add: Let_def)
  have c: "intensity \<lparr> rectTop = 1000, rectHeight = 600, innerHeight = 800 \<rparr> = 0"
    using scroll_intensity [of "\<lparr> rectTop = 1000, rectHeight = 600, innerHeight = 800 \<rparr>"]
    by (simp add: Let_def)
  have d: "intensity \<lparr> rectTop = 200, rectHeight = 600, innerHeight = 800 \<rparr> = 3 / 4"
    using scroll_intensity [of "\<lparr> rectTop = 200, rectHeight = 600, innerHeight = 800 \<rparr>"]
    by (simp add: Let_def)
  have e: "intensity \<lparr> rectTop = - 700, rectHeight = 600, innerHeight = 800 \<rparr> = 0"
    using scroll_intensity [of "\<lparr> rectTop = - 700, rectHeight = 600, innerHeight = 800 \<rparr>"]
    by (simp add: Let_def)
  have f: "intensity \<lparr> rectTop = 0, rectHeight = 1, innerHeight = 0 \<rparr> = 1"
    using scroll_intensity [of "\<lparr> rectTop = 0, rectHeight = 1, innerHeight = 0 \<rparr>"]
    by (simp add: Let_def)
  have g: "pulseClass (handleScroll \<lparr> rectTop = 200, rectHeight = 600, innerHeight = 800 \<rparr>)"
    using scroll_intensity [of "\<lparr> rectTop = 200, rectHeight = 600, innerHeight = 800 \<rparr>"] d
    by (simp add: Let_def)
  have h: "\<not> pulseClass (handleScroll \<lparr> rectTop = 500, rectHeight = 600, innerHeight = 800 \<rparr>)"
    using scroll_intensity [of "\<lparr> rectTop = 500, rectHeight = 600, innerHeight = 800 \<rparr>"] b
    by (simp add: Let_def)
  from a b c d e f g h show ?thesis by (intro conjI)
qed


section \<open>The matcher and the language of a regular expression\<close>

lemma plusLang_Nil: "[] \<in> plusLang A \<longleftrightarrow> [] \<in> A"
proof
  assume "[] \<in> plusLang A"
  then show "[] \<in> A"
    by (induction "[] :: string" rule: plusLang.induct) simp_all
next
  assume "[] \<in> A"
  then show "[] \<in> plusLang A" by (rule plusLang.one)
qed

lemma nullable_lang: "nullable r \<longleftrightarrow> [] \<in> lang r"
  by (induction r) (auto simp: plusLang_Nil)

lemma plusLang_Cons:
  "c # w \<in> plusLang A \<longleftrightarrow>
     (\<exists>u x. c # u \<in> A \<and> (x = [] \<or> x \<in> plusLang A) \<and> w = u @ x)"
proof
  assume "c # w \<in> plusLang A"
  then show "\<exists>u x. c # u \<in> A \<and> (x = [] \<or> x \<in> plusLang A) \<and> w = u @ x"
  proof (induction "c # w" arbitrary: w rule: plusLang.induct)
    case one
    then show ?case by auto
  next
    case (more u x)
    show ?case
    proof (cases u)
      case Nil
      then have "x = c # w" using more.hyps(4) by simp
      then show ?thesis using more.hyps(3) by simp
    next
      case (Cons d u')
      then have "d = c" "w = u' @ x" using more.hyps(4) by simp_all
      then show ?thesis using more.hyps(1,2) Cons by auto
    qed
  qed
next
  assume "\<exists>u x. c # u \<in> A \<and> (x = [] \<or> x \<in> plusLang A) \<and> w = u @ x"
  then obtain u x where ux: "c # u \<in> A" "x = [] \<or> x \<in> plusLang A" "w = u @ x"
    by blast
  show "c # w \<in> plusLang A"
  proof (cases "x = []")
    case True
    then show ?thesis using ux(1,3) by (simp add: plusLang.one)
  next
    case False
    then have "(c # u) @ x \<in> plusLang A"
      using ux(1,2) by (intro plusLang.more) simp_all
    then show ?thesis using ux(3) by simp
  qed
qed

lemma deriv_lang: "w \<in> lang (deriv c r) \<longleftrightarrow> c # w \<in> lang r"
proof (induction r arbitrary: w)
  case (Seq r s)
  have "c # w \<in> lang (Seq r s) \<longleftrightarrow>
      ([] \<in> lang r \<and> c # w \<in> lang s) \<or> (\<exists>u x. c # u \<in> lang r \<and> x \<in> lang s \<and> w = u @ x)"
    by (auto simp: Cons_eq_append_conv)
  then show ?case
    using Seq by (auto simp: nullable_lang)
next
  case (Plus r)
  have "w \<in> lang (deriv c (Plus r)) \<longleftrightarrow>
      (\<exists>u x. u \<in> lang (deriv c r) \<and> (x = [] \<or> x \<in> plusLang (lang r)) \<and> w = u @ x)"
    by auto
  then show ?case
    using Plus by (simp add: plusLang_Cons)
qed auto

lemma test_lang: "test r s \<longleftrightarrow> s \<in> lang r"
  unfolding test_def
  by (induction s arbitrary: r) (simp_all add: nullable_lang deriv_lang)

lemma plusLang_Class: "w \<in> plusLang (lang (Class p)) \<longleftrightarrow> w \<noteq> [] \<and> list_all p w"
proof
  assume "w \<in> plusLang (lang (Class p))"
  then show "w \<noteq> [] \<and> list_all p w"
    by (induction rule: plusLang.induct) auto
next
  assume "w \<noteq> [] \<and> list_all p w"
  then show "w \<in> plusLang (lang (Class p))"
  proof (induction w)
    case Nil
    then show ?case by simp
  next
    case (Cons c w)
    have c: "[c] \<in> lang (Class p)" using Cons.prems by simp
    show ?case
    proof (cases "w = []")
      case True
      then show ?thesis using c by (simp add: plusLang.one)
    next
      case False
      then have "w \<in> plusLang (lang (Class p))" using Cons by simp
      with c have "[c] @ w \<in> plusLang (lang (Class p))"
        by (rule plusLang.more)
      then show ?thesis by simp
    qed
  qed
qed

text \<open>
  The validator accepts exactly the values that, lower-cased and trimmed, are a local
  part, \<^verbatim>\<open>@\<close>, a domain, a dot and a last part, each non-empty and free of white space and
  of \<^verbatim>\<open>@\<close>.
\<close>

theorem isValidEmail_shape:
  "isValidEmail val \<longleftrightarrow>
     (\<exists>a b c. trim (toLowerCase val) = a @ ''@'' @ b @ ''.'' @ c \<and>
        a \<noteq> [] \<and> b \<noteq> [] \<and> c \<noteq> [] \<and>
        list_all notSpaceAt a \<and> list_all notSpaceAt b \<and> list_all notSpaceAt c)"
proof -
  have "s \<in> lang emailPattern \<longleftrightarrow>
     (\<exists>a b c. s = a @ ''@'' @ b @ ''.'' @ c \<and>
        a \<noteq> [] \<and> b \<noteq> [] \<and> c \<noteq> [] \<and>
        list_all notSpaceAt a \<and> list_all notSpaceAt b \<and> list_all notSpaceAt c)" for s
    unfolding emailPattern_def lang.simps(4) lang.simps(6) plusLang_Class
    by (simp only: lang.simps(3)) blast
  then show ?thesis
    by (simp add: isValidEmail_def test_lang)
qed

section \<open>The email validator\<close>

lemmas email_eval =
  test_def emailPattern_def toLowerCase_def trim_def isWhiteSpace_def notSpaceAt_def

text \<open>
  Claim C8. The email validator accepts \<^verbatim>\<open>user@example.com\<close> and rejects \<^verbatim>\<open>user@\<close>,
  \<^verbatim>\<open>@example.com\<close>, \<^verbatim>\<open>plain-text\<close> and the empty string; so does the validator of the
  client-only revision.
\<close>

theorem isValidEmail_examples:
  "isValidEmail ''user@example.com'' \<and>
   \<not> isValidEmail ''user@'' \<and>
   \<not> isValidEmail ''@example.com'' \<and>
   \<not> isValidEmail ''plain-text'' \<and>
   \<not> isValidEmail [] \<and>
   isValidEmailLocal ''user@example.com'' \<and>
   \<not> isValidEmailLocal ''user@'' \<and>
   \<not> isValidEmailLocal ''@example.com'' \<and>
   \<not> isValidEmailLocal ''plain-text'' \<and>
   \<not> isValidEmailLocal []"
  by (simp add: isValidEmail_def isValidEmailLocal_def email_eval)

section \<open>The waitlist form\<close>








end
